theory Spec2Isabelle
  imports Main "HOL-Library.Word"
begin

section \<open>Day 18, part 2: the two-machine interpreter of Day18p2.cpp\<close>

text \<open>
  The embedding follows \<^verbatim>\<open>src/peterw-C++/Day18/Day18p2.cpp\<close>.
  \<^item> \<^verbatim>\<open>Value = int64_t\<close> is a \<open>64 word\<close> read with \<open>sint\<close>; \<^verbatim>\<open>int\<close> (the program
    counter and the send count) is a \<open>32 word\<close> read with \<open>sint\<close>; \<^verbatim>\<open>Register = char\<close>
    is a \<open>char\<close>.
  \<^item> A C++ exception is an \<open>error\<close> value. What the C++ standard leaves undefined
    (an index outside \<^verbatim>\<open>array<Value, 26>\<close>, a signed overflow, \<^verbatim>\<open>%\<close> with a zero
    divisor) is the outcome \<open>UndefinedBehaviour\<close>: the source has no check there, and
    the model promises nothing about what follows.
  \<^item> The \<^verbatim>\<open>while(true)\<close> of \<^verbatim>\<open>solve_part2\<close> may run forever: it is a partial function
    into \<open>option\<close>, with \<open>None\<close> for a run that never ends.
\<close>

subsection \<open>Data model\<close>

type_synonym Value = "64 word"
type_synonym Register = char

datatype Operand = Val Value | Reg Register

datatype Intr = IntrNone | IntrStop | IntrSend | IntrReceive

datatype Instr =
    SndInstr Operand
  | SetInstr Register Operand
  | AddInstr Register Operand
  | MulInstr Register Operand
  | ModInstr Register Operand
  | RcvInstr Register
  | JgzInstr Operand Operand

type_synonym Program = "Instr list"

datatype error =
    BadVariantAccess      \<comment> \<open>\<^verbatim>\<open>get<Register>\<close> on an operand holding a \<^verbatim>\<open>Value\<close>\<close>
  | InvalidArgument       \<comment> \<open>\<^verbatim>\<open>stoi\<close>: no digits to convert\<close>
  | OutOfRange            \<comment> \<open>\<^verbatim>\<open>stoi\<close>: value outside \<^verbatim>\<open>int\<close>; \<^verbatim>\<open>substr\<close>: position beyond the end\<close>
  | StdException          \<comment> \<open>\<^verbatim>\<open>throw std::exception()\<close>\<close>
  | UndefinedBehaviour    \<comment> \<open>no defined outcome in C++\<close>

record State =
  pc :: "32 word"
  regs :: "Value list"
  program :: Program
  "input" :: "Value list"
  "output" :: "Value list"

text \<open>The constructor \<^verbatim>\<open>State(const Program&)\<close>: \<^verbatim>\<open>pc{0}\<close>, \<^verbatim>\<open>regs.fill(0)\<close>, empty queues.\<close>

definition State_new :: "Program \<Rightarrow> State" where
  "State_new p = \<lparr>pc = 0, regs = replicate 26 0, program = p, input = [], output = []\<rparr>"

text \<open>
  \<^verbatim>\<open>regs[r - 'a']\<close>: the index is the \<^verbatim>\<open>int\<close> difference of the character codes, used as
  an unsigned index into an array of 26; outside \<open>0..25\<close> the access is undefined.
\<close>

definition reg_index :: "Register \<Rightarrow> int" where
  "reg_index r = of_char r - 97"

definition valid_reg :: "Register \<Rightarrow> bool" where
  "valid_reg r = (0 \<le> reg_index r \<and> reg_index r < 26)"

definition setRegister :: "Register \<Rightarrow> Value \<Rightarrow> State \<Rightarrow> error + State" where
  "setRegister r v s =
     (if valid_reg r then Inr (s\<lparr>regs := (regs s)[nat (reg_index r) := v]\<rparr>)
      else Inl UndefinedBehaviour)"

definition getRegister :: "State \<Rightarrow> Register \<Rightarrow> error + Value" where
  "getRegister s r =
     (if valid_reg r then Inr (regs s ! nat (reg_index r)) else Inl UndefinedBehaviour)"

fun evalOperand :: "State \<Rightarrow> Operand \<Rightarrow> error + Value" where
  "evalOperand s (Val v) = Inr v"
| "evalOperand s (Reg r) = getRegister s r"

subsection \<open>Signed arithmetic of C++\<close>

definition in_int64 :: "int \<Rightarrow> bool" where
  "in_int64 i = (- (2 ^ 63) \<le> i \<and> i < 2 ^ 63)"

text \<open>\<^verbatim>\<open>a + b\<close> and \<^verbatim>\<open>a * b\<close> on \<^verbatim>\<open>int64_t\<close>: a result that does not fit is undefined.\<close>

definition add_Value :: "Value \<Rightarrow> Value \<Rightarrow> error + Value" where
  "add_Value a b =
     (if in_int64 (sint a + sint b) then Inr (a + b) else Inl UndefinedBehaviour)"

definition mul_Value :: "Value \<Rightarrow> Value \<Rightarrow> error + Value" where
  "mul_Value a b =
     (if in_int64 (sint a * sint b) then Inr (a * b) else Inl UndefinedBehaviour)"

text \<open>
  \<^verbatim>\<open>a % b\<close> truncates towards zero (the sign of the result is the sign of \<open>a\<close>). It is
  undefined for \<open>b = 0\<close>, and for the one pair whose quotient does not fit.
\<close>

definition trunc_rem :: "int \<Rightarrow> int \<Rightarrow> int" where
  "trunc_rem a b = sgn a * (\<bar>a\<bar> mod \<bar>b\<bar>)"

definition mod_Value :: "Value \<Rightarrow> Value \<Rightarrow> error + Value" where
  "mod_Value a b =
     (if b = 0 then Inl UndefinedBehaviour
      else if sint a = - (2 ^ 63) \<and> sint b = - 1 then Inl UndefinedBehaviour
      else Inr (word_of_int (trunc_rem (sint a) (sint b))))"

text \<open>\<^verbatim>\<open>s.pc++\<close> on an \<^verbatim>\<open>int\<close>.\<close>

definition pc_incr :: "State \<Rightarrow> error + State" where
  "pc_incr s =
     (if sint (pc s) = 2 ^ 31 - 1 then Inl UndefinedBehaviour
      else Inr (s\<lparr>pc := pc s + 1\<rparr>))"

text \<open>
  \<^verbatim>\<open>s.pc += v\<close> with \<^verbatim>\<open>v\<close> an \<^verbatim>\<open>int64_t\<close>: the sum is computed in \<^verbatim>\<open>int64_t\<close> and
  converted back to \<^verbatim>\<open>int\<close>, which keeps the low 32 bits.
\<close>

definition pc_add :: "Value \<Rightarrow> State \<Rightarrow> error + State" where
  "pc_add v s =
     (if in_int64 (sint (pc s) + sint v) then Inr (s\<lparr>pc := word_of_int (sint (pc s) + sint v)\<rparr>)
      else Inl UndefinedBehaviour)"

subsection \<open>Instruction execution\<close>

text \<open>The shape shared by \<^verbatim>\<open>SetInstr\<close>, \<^verbatim>\<open>AddInstr\<close>, \<^verbatim>\<open>MulInstr\<close> and \<^verbatim>\<open>ModInstr\<close>:
  store the computed value, increment the counter, return \<^verbatim>\<open>Intr::None\<close>.\<close>

definition store_next :: "Register \<Rightarrow> error + Value \<Rightarrow> State \<Rightarrow> error + (Intr \<times> State)" where
  "store_next x r s =
     (case r of Inl e \<Rightarrow> Inl e
      | Inr v \<Rightarrow>
          (case setRegister x v s of Inl e \<Rightarrow> Inl e
           | Inr s1 \<Rightarrow>
               (case pc_incr s1 of Inl e \<Rightarrow> Inl e
                | Inr s2 \<Rightarrow> Inr (IntrNone, s2))))"

definition binop :: "(Value \<Rightarrow> Value \<Rightarrow> error + Value) \<Rightarrow> State \<Rightarrow> Register \<Rightarrow> Operand
    \<Rightarrow> error + Value" where
  "binop f s x y =
     (case evalOperand s (Reg x) of Inl e \<Rightarrow> Inl e
      | Inr a \<Rightarrow> (case evalOperand s y of Inl e \<Rightarrow> Inl e | Inr b \<Rightarrow> f a b))"

fun execute :: "Instr \<Rightarrow> State \<Rightarrow> error + (Intr \<times> State)" where
  "execute (SndInstr x) s =
     (case evalOperand s x of Inl e \<Rightarrow> Inl e
      | Inr v \<Rightarrow>
          (case pc_incr (s\<lparr>output := output s @ [v]\<rparr>) of Inl e \<Rightarrow> Inl e
           | Inr s' \<Rightarrow> Inr (IntrSend, s')))"
| "execute (SetInstr x y) s = store_next x (evalOperand s y) s"
| "execute (AddInstr x y) s = store_next x (binop add_Value s x y) s"
| "execute (MulInstr x y) s = store_next x (binop mul_Value s x y) s"
| "execute (ModInstr x y) s = store_next x (binop mod_Value s x y) s"
| "execute (RcvInstr x) s =
     (case input s of
        [] \<Rightarrow> Inr (IntrReceive, s)
      | v # rest \<Rightarrow> store_next x (Inr v) (s\<lparr>input := rest\<rparr>))"
| "execute (JgzInstr x y) s =
     (case evalOperand s x of Inl e \<Rightarrow> Inl e
      | Inr a \<Rightarrow>
          if 0 < sint a then
            (case evalOperand s y of Inl e \<Rightarrow> Inl e
             | Inr b \<Rightarrow> (case pc_add b s of Inl e \<Rightarrow> Inl e | Inr s' \<Rightarrow> Inr (IntrNone, s')))
          else (case pc_incr s of Inl e \<Rightarrow> Inl e | Inr s' \<Rightarrow> Inr (IntrNone, s')))"

text \<open>
  \<^verbatim>\<open>executeOne\<close>: \<^verbatim>\<open>s.pc < 0 || s.pc >= s.program.size()\<close>; the second comparison is
  unsigned, and is reached only with a counter that is not negative.
\<close>

definition executeOne :: "State \<Rightarrow> error + (Intr \<times> State)" where
  "executeOne s =
     (if sint (pc s) < 0 \<or> length (program s) \<le> nat (sint (pc s)) then Inr (IntrStop, s)
      else execute (program s ! nat (sint (pc s))) s)"

subsection \<open>Parsing\<close>

text \<open>
  \<^verbatim>\<open>std::stoi(s)\<close> of the C++ standard library (base 10, through \<^verbatim>\<open>strtol\<close>): white space
  is skipped, one sign is accepted, then the longest run of decimal digits is read and
  whatever follows is ignored. No digit: \<^verbatim>\<open>invalid_argument\<close>. A value outside
  \<^verbatim>\<open>int\<close>: \<^verbatim>\<open>out_of_range\<close>. The result is the mathematical value, inside
  \<open>- 2 ^ 31 .. 2 ^ 31 - 1\<close>.
\<close>

definition isspace :: "char \<Rightarrow> bool" where
  "isspace c = (of_char c = (32::int) \<or> (9 \<le> (of_char c :: int) \<and> (of_char c :: int) \<le> 13))"

definition isdigit :: "char \<Rightarrow> bool" where
  "isdigit c = (48 \<le> (of_char c :: int) \<and> (of_char c :: int) \<le> 57)"

fun digits_value :: "int \<Rightarrow> string \<Rightarrow> int" where
  "digits_value acc [] = acc"
| "digits_value acc (c # cs) = digits_value (acc * 10 + (of_char c - 48)) cs"

definition stoi :: "string \<Rightarrow> error + int" where
  "stoi s =
     (let t = dropWhile isspace s;
          neg = (t \<noteq> [] \<and> hd t = CHR ''-'');
          u = (if t \<noteq> [] \<and> (hd t = CHR ''-'' \<or> hd t = CHR ''+'') then tl t else t);
          ds = takeWhile isdigit u;
          n = digits_value 0 ds;
          v = (if neg then - n else n)
      in if ds = [] then Inl InvalidArgument
         else if v < - (2 ^ 31) \<or> 2 ^ 31 - 1 < v then Inl OutOfRange
         else Inr v)"

text \<open>
  \<^verbatim>\<open>parseOperand\<close> looks at \<^verbatim>\<open>s[0]\<close> only, which is the terminating zero character for
  the empty string. \<^verbatim>\<open>static_cast<Value>\<close> widens the \<^verbatim>\<open>int\<close> of \<^verbatim>\<open>stoi\<close>.
\<close>

definition first_char :: "string \<Rightarrow> char" where
  "first_char s = (case s of [] \<Rightarrow> char_of (0::int) | c # _ \<Rightarrow> c)"

definition parseOperand :: "string \<Rightarrow> error + Operand" where
  "parseOperand s =
     (if 97 \<le> (of_char (first_char s) :: int) \<and> (of_char (first_char s) :: int) \<le> 122
      then Inr (Reg (first_char s))
      else (case stoi s of Inl e \<Rightarrow> Inl e | Inr v \<Rightarrow> Inr (Val (word_of_int v))))"

text \<open>
  \<^verbatim>\<open>string::find(c, pos)\<close>: the first index \<open>\<ge> pos\<close> holding \<open>c\<close>; \<open>None\<close> is
  \<^verbatim>\<open>npos\<close>. \<^verbatim>\<open>string::substr(pos, n)\<close> throws \<^verbatim>\<open>out_of_range\<close> when \<open>pos\<close> is beyond the
  end; the count \<open>None\<close> stands for \<^verbatim>\<open>npos\<close> (and for \<^verbatim>\<open>npos - 4\<close>): all the rest.
\<close>

fun index_from :: "char \<Rightarrow> string \<Rightarrow> nat \<Rightarrow> nat option" where
  "index_from c [] i = None"
| "index_from c (x # xs) i = (if x = c then Some i else index_from c xs (Suc i))"

definition find_from :: "string \<Rightarrow> char \<Rightarrow> nat \<Rightarrow> nat option" where
  "find_from s c pos = index_from c (drop pos s) pos"

definition substr :: "string \<Rightarrow> nat \<Rightarrow> nat option \<Rightarrow> error + string" where
  "substr s pos cnt =
     (if length s < pos then Inl OutOfRange
      else Inr (case cnt of None \<Rightarrow> drop pos s | Some n \<Rightarrow> take n (drop pos s)))"

text \<open>\<^verbatim>\<open>get<Register>(x)\<close> on the variant.\<close>

fun get_Register :: "Operand \<Rightarrow> error + Register" where
  "get_Register (Reg r) = Inr r"
| "get_Register (Val v) = Inl BadVariantAccess"

definition reg_instr :: "(Register \<Rightarrow> Instr) \<Rightarrow> Operand \<Rightarrow> error + Instr" where
  "reg_instr mk x = (case get_Register x of Inl e \<Rightarrow> Inl e | Inr r \<Rightarrow> Inr (mk r))"

text \<open>
  \<^verbatim>\<open>parseInstr\<close>. The second operand \<^verbatim>\<open>Operand y;\<close> is default-constructed, which for
  the variant is its first alternative, the \<^verbatim>\<open>Value\<close> 0, and is overwritten only when a
  separator is found at index 5 or later.
\<close>

definition parse_y :: "string \<Rightarrow> nat option \<Rightarrow> error + Operand" where
  "parse_y instrStr sepPos =
     (case sepPos of
        None \<Rightarrow> Inr (Val 0)
      | Some p \<Rightarrow>
          (case substr instrStr (p + 1) None of Inl e \<Rightarrow> Inl e | Inr ys \<Rightarrow> parseOperand ys))"

definition mk_instr :: "string \<Rightarrow> Operand \<Rightarrow> Operand \<Rightarrow> error + Instr" where
  "mk_instr is x y =
     (if is = ''snd'' then Inr (SndInstr x)
      else if is = ''set'' then reg_instr (\<lambda>r. SetInstr r y) x
      else if is = ''add'' then reg_instr (\<lambda>r. AddInstr r y) x
      else if is = ''mul'' then reg_instr (\<lambda>r. MulInstr r y) x
      else if is = ''mod'' then reg_instr (\<lambda>r. ModInstr r y) x
      else if is = ''rcv'' then reg_instr RcvInstr x
      else if is = ''jgz'' then Inr (JgzInstr x y)
      else Inl StdException)"

definition parseInstr :: "string \<Rightarrow> error + Instr" where
  "parseInstr instrStr =
     (let is = take 3 instrStr;
          sepPos = find_from instrStr (CHR '' '') 5
      in case substr instrStr 4 (map_option (\<lambda>p. p - 4) sepPos) of
           Inl e \<Rightarrow> Inl e
         | Inr xs \<Rightarrow>
             (case parseOperand xs of
                Inl e \<Rightarrow> Inl e
              | Inr x \<Rightarrow>
                  (case parse_y instrStr sepPos of
                     Inl e \<Rightarrow> Inl e
                   | Inr y \<Rightarrow> mk_instr is x y)))"

fun parseProgram :: "string list \<Rightarrow> error + Program" where
  "parseProgram [] = Inr []"
| "parseProgram (line # lines) =
     (case parseInstr line of
        Inl e \<Rightarrow> Inl e
      | Inr instr \<Rightarrow>
          (case parseProgram lines of Inl e \<Rightarrow> Inl e | Inr p \<Rightarrow> Inr (instr # p)))"

subsection \<open>The scheduler of \<^verbatim>\<open>solve_part2\<close>\<close>

record Sched =
  s0 :: State
  s1 :: State
  p1SendCount :: "32 word"

datatype Outcome = DeadLock | StoppedNormally

text \<open>
  The first inner loop, on \<^verbatim>\<open>s0.output\<close> and \<^verbatim>\<open>s1.input\<close>: front of the one pushed at
  the back of the other until the first is empty.
\<close>

fun drain_p0 :: "Value list \<Rightarrow> Value list \<Rightarrow> Value list \<times> Value list" where
  "drain_p0 [] inp = ([], inp)"
| "drain_p0 (v # out) inp = drain_p0 out (inp @ [v])"

text \<open>The second inner loop, on \<^verbatim>\<open>s1.output\<close> and \<^verbatim>\<open>s0.input\<close>, with \<^verbatim>\<open>p1SendCount++\<close>
  first in its body.\<close>

fun drain_p1 :: "Value list \<Rightarrow> Value list \<Rightarrow> 32 word \<Rightarrow> error + (Value list \<times> Value list \<times> 32 word)" where
  "drain_p1 [] inp c = Inr ([], inp, c)"
| "drain_p1 (v # out) inp c =
     (if sint c = 2 ^ 31 - 1 then Inl UndefinedBehaviour
      else drain_p1 out (inp @ [v]) (c + 1))"

text \<open>The two calls of \<^verbatim>\<open>executeOne\<close> that open the loop body.\<close>

definition steps :: "Sched \<Rightarrow> error + (Intr \<times> Intr \<times> Sched)" where
  "steps st =
     (case executeOne (s0 st) of
        Inl e \<Rightarrow> Inl e
      | Inr (r0, a) \<Rightarrow>
          (case executeOne (s1 st) of
             Inl e \<Rightarrow> Inl e
           | Inr (r1, b) \<Rightarrow> Inr (r0, r1, st\<lparr>s0 := a, s1 := b\<rparr>)))"

text \<open>The two drains that follow.\<close>

definition drains :: "Sched \<Rightarrow> error + Sched" where
  "drains st =
     (case drain_p0 (output (s0 st)) (input (s1 st)) of
        (o0, i1) \<Rightarrow>
          (case drain_p1 (output (s1 st)) (input (s0 st)) (p1SendCount st) of
             Inl e \<Rightarrow> Inl e
           | Inr (o1, i0, c) \<Rightarrow>
               Inr \<lparr>s0 = (s0 st)\<lparr>input := i0, output := o0\<rparr>,
                    s1 = (s1 st)\<lparr>input := i1, output := o1\<rparr>,
                    p1SendCount = c\<rparr>))"

text \<open>One turn: the loop body up to the two tests.\<close>

definition turn :: "Sched \<Rightarrow> error + (Intr \<times> Intr \<times> Sched)" where
  "turn st =
     (case steps st of
        Inl e \<Rightarrow> Inl e
      | Inr (r0, r1, mid) \<Rightarrow>
          (case drains mid of Inl e \<Rightarrow> Inl e | Inr st' \<Rightarrow> Inr (r0, r1, st')))"

text \<open>The two tests that close the loop body, in the order of the source.\<close>

definition verdict :: "Intr \<Rightarrow> Intr \<Rightarrow> Outcome option" where
  "verdict r0 r1 =
     (if r0 = IntrReceive \<and> r1 = IntrReceive then Some DeadLock
      else if r0 = IntrStop \<or> r1 = IntrStop then Some StoppedNormally
      else None)"

partial_function (option) run_loop :: "Sched \<Rightarrow> (error + (Outcome \<times> Sched)) option" where
  "run_loop st =
     (case turn st of
        Inl e \<Rightarrow> Some (Inl e)
      | Inr (r0, r1, st') \<Rightarrow>
          (case verdict r0 r1 of
             Some oc \<Rightarrow> Some (Inr (oc, st'))
           | None \<Rightarrow> run_loop st'))"

text \<open>The states before the loop: \<^verbatim>\<open>State s0(p); s0.setRegister('p', 0);\<close> and the same
  with 1 for \<^verbatim>\<open>s1\<close>; \<^verbatim>\<open>int p1SendCount{0}\<close>.\<close>

definition start :: "Program \<Rightarrow> error + Sched" where
  "start p =
     (case setRegister (CHR ''p'') 0 (State_new p) of
        Inl e \<Rightarrow> Inl e
      | Inr a \<Rightarrow>
          (case setRegister (CHR ''p'') 1 (State_new p) of
             Inl e \<Rightarrow> Inl e
           | Inr b \<Rightarrow> Inr \<lparr>s0 = a, s1 = b, p1SendCount = 0\<rparr>))"

text \<open>
  \<^verbatim>\<open>solve_part2\<close>, with the lines read from the input file as its argument and what it
  prints as its result: which message, and \<^verbatim>\<open>p1SendCount\<close>.
\<close>

definition solve_part2 :: "string list \<Rightarrow> (error + (Outcome \<times> 32 word)) option" where
  "solve_part2 lines =
     (case parseProgram lines of
        Inl e \<Rightarrow> Some (Inl e)
      | Inr p \<Rightarrow>
          (case start p of
             Inl e \<Rightarrow> Some (Inl e)
           | Inr st \<Rightarrow>
               (case run_loop st of
                  None \<Rightarrow> None
                | Some (Inl e) \<Rightarrow> Some (Inl e)
                | Some (Inr (oc, fin)) \<Rightarrow> Some (Inr (oc, p1SendCount fin)))))"

text \<open>
  The loop with a bound on the number of turns, \<open>None\<close> when the bound is reached: the
  tool for reasoning about \<open>run_loop\<close> turn by turn.
\<close>

fun run_fuel :: "nat \<Rightarrow> Sched \<Rightarrow> (error + (Outcome \<times> Sched)) option" where
  "run_fuel 0 st = None"
| "run_fuel (Suc n) st =
     (case turn st of
        Inl e \<Rightarrow> Some (Inl e)
      | Inr (r0, r1, st') \<Rightarrow>
          (case verdict r0 r1 of
             Some oc \<Rightarrow> Some (Inr (oc, st'))
           | None \<Rightarrow> run_fuel n st'))"

subsection \<open>Observing a run, turn by turn\<close>

text \<open>
  \<open>turn_start n st\<close> is the state in which turn number \<open>n\<close> (counted from 0) of the
  run from \<open>st\<close> begins, when the run gets that far: every earlier turn ended without
  an error and without leaving the loop.
\<close>

fun turn_start :: "nat \<Rightarrow> Sched \<Rightarrow> Sched option" where
  "turn_start 0 st = Some st"
| "turn_start (Suc n) st =
     (case turn st of
        Inl e \<Rightarrow> None
      | Inr (r0, r1, st') \<Rightarrow>
          (case verdict r0 r1 of None \<Rightarrow> turn_start n st' | Some oc \<Rightarrow> None))"

text \<open>
  \<open>run_trace f n st\<close> collects what \<open>f\<close> observes at the start of each of the first
  \<open>n\<close> turns of the run from \<open>st\<close>, in order, up to and including the turn on which the
  loop is left.
\<close>

fun run_trace :: "(Sched \<Rightarrow> 'a list) \<Rightarrow> nat \<Rightarrow> Sched \<Rightarrow> 'a list" where
  "run_trace f 0 st = []"
| "run_trace f (Suc n) st =
     (case turn st of
        Inl e \<Rightarrow> []
      | Inr (r0, r1, st') \<Rightarrow>
          f st @ (case verdict r0 r1 of None \<Rightarrow> run_trace f n st' | Some oc \<Rightarrow> []))"

text \<open>
  What one step of a machine sends: the value of the operand, when the instruction at
  the counter is \<open>snd\<close>. What one step receives: the value found in register \<open>x\<close>
  afterwards, when the instruction is \<open>rcv x\<close> and the step did not block.
\<close>

definition sent :: "State \<Rightarrow> Value list" where
  "sent s =
     (if 0 \<le> sint (pc s) \<and> nat (sint (pc s)) < length (program s) then
        (case program s ! nat (sint (pc s)) of
           SndInstr x \<Rightarrow> (case evalOperand s x of Inl e \<Rightarrow> [] | Inr v \<Rightarrow> [v])
         | _ \<Rightarrow> [])
      else [])"

definition received :: "State \<Rightarrow> Value list" where
  "received s =
     (if 0 \<le> sint (pc s) \<and> nat (sint (pc s)) < length (program s) then
        (case program s ! nat (sint (pc s)) of
           RcvInstr x \<Rightarrow>
             (case executeOne s of
                Inl e \<Rightarrow> []
              | Inr (r, s') \<Rightarrow>
                  if r = IntrNone then (case getRegister s' x of Inl e \<Rightarrow> [] | Inr v \<Rightarrow> [v])
                  else [])
         | _ \<Rightarrow> [])
      else [])"

text \<open>What the second drain of a turn moves: the output queue of \<open>s1\<close> after the two steps.\<close>

definition drained_p1 :: "Sched \<Rightarrow> Value list" where
  "drained_p1 st = (case steps st of Inl e \<Rightarrow> [] | Inr (r0, r1, mid) \<Rightarrow> output (s1 mid))"

definition sent_p0 :: "Sched \<Rightarrow> Value list" where
  "sent_p0 st = sent (s0 st)"

definition sent_p1 :: "Sched \<Rightarrow> Value list" where
  "sent_p1 st = sent (s1 st)"

definition received_p0 :: "Sched \<Rightarrow> Value list" where
  "received_p0 st = received (s0 st)"

definition received_p1 :: "Sched \<Rightarrow> Value list" where
  "received_p1 st = received (s1 st)"

definition between_turns :: "Sched \<Rightarrow> bool" where
  "between_turns st =
     (output (s0 st) = [] \<and> output (s1 st) = [] \<and>
      length (regs (s0 st)) = 26 \<and> length (regs (s1 st)) = 26)"

subsection \<open>Two small programs\<close>

text \<open>The program \<open>snd p; rcv a\<close> and the states its run goes through, and the same
  for \<open>snd p; rcv a; rcv b\<close>.\<close>

definition snd_rcv_prog :: Program where
  "snd_rcv_prog = [SndInstr (Reg (CHR ''p'')), RcvInstr (CHR ''a'')]"

definition snd_rcv_state :: "32 word \<Rightarrow> Value \<Rightarrow> Value \<Rightarrow> Value list \<Rightarrow> State" where
  "snd_rcv_state c a p inp =
     \<lparr>pc = c, regs = (replicate 26 0)[0 := a, 15 := p], program = snd_rcv_prog,
      input = inp, output = []\<rparr>"

definition snd_rcv_0 :: Sched where
  "snd_rcv_0 = \<lparr>s0 = snd_rcv_state 0 0 0 [], s1 = snd_rcv_state 0 0 1 [], p1SendCount = 0\<rparr>"

definition snd_rcv_1 :: Sched where
  "snd_rcv_1 = \<lparr>s0 = snd_rcv_state 1 0 0 [1], s1 = snd_rcv_state 1 0 1 [0], p1SendCount = 1\<rparr>"

definition snd_rcv_2 :: Sched where
  "snd_rcv_2 = \<lparr>s0 = snd_rcv_state 2 1 0 [], s1 = snd_rcv_state 2 0 1 [], p1SendCount = 1\<rparr>"

definition snd_rcv_rcv_prog :: Program where
  "snd_rcv_rcv_prog = [SndInstr (Reg (CHR ''p'')), RcvInstr (CHR ''a''), RcvInstr (CHR ''b'')]"

definition snd_rcv_rcv_state :: "32 word \<Rightarrow> Value \<Rightarrow> Value \<Rightarrow> Value list \<Rightarrow> State" where
  "snd_rcv_rcv_state c a p inp =
     \<lparr>pc = c, regs = (replicate 26 0)[0 := a, 15 := p], program = snd_rcv_rcv_prog,
      input = inp, output = []\<rparr>"

definition snd_rcv_rcv_0 :: Sched where
  "snd_rcv_rcv_0 =
     \<lparr>s0 = snd_rcv_rcv_state 0 0 0 [], s1 = snd_rcv_rcv_state 0 0 1 [], p1SendCount = 0\<rparr>"

definition snd_rcv_rcv_1 :: Sched where
  "snd_rcv_rcv_1 =
     \<lparr>s0 = snd_rcv_rcv_state 1 0 0 [1], s1 = snd_rcv_rcv_state 1 0 1 [0], p1SendCount = 1\<rparr>"

definition snd_rcv_rcv_2 :: Sched where
  "snd_rcv_rcv_2 =
     \<lparr>s0 = snd_rcv_rcv_state 2 1 0 [], s1 = snd_rcv_rcv_state 2 0 1 [], p1SendCount = 1\<rparr>"

subsection \<open>The scheduler with an unbounded count\<close>

text \<open>
  The loop as section 4.5 of the specification words it, with the running count a natural
  number: each turn steps the first machine, steps the second, appends the output queue
  of the first to the input queue of the second, appends the output queue of the second
  to the input queue of the first while adding the number of values moved to the count,
  and then tests for the end. It is the reference that the loop of \<^verbatim>\<open>solve_part2\<close>, with
  its \<^verbatim>\<open>int\<close> counter, is compared with. The first argument bounds the number of turns, as
  in \<open>run_fuel\<close>.
\<close>

fun scheduler_spec :: "nat \<Rightarrow> State \<Rightarrow> State \<Rightarrow> nat
    \<Rightarrow> (error + (Outcome \<times> State \<times> State \<times> nat)) option" where
  "scheduler_spec 0 a b n = None"
| "scheduler_spec (Suc k) a b n =
     (case executeOne a of
        Inl e \<Rightarrow> Some (Inl e)
      | Inr (r0, a1) \<Rightarrow>
          (case executeOne b of
             Inl e \<Rightarrow> Some (Inl e)
           | Inr (r1, b1) \<Rightarrow>
               (case verdict r0 r1 of
                  Some oc \<Rightarrow>
                    Some (Inr (oc, a1\<lparr>input := input a1 @ output b1, output := []\<rparr>,
                               b1\<lparr>input := input b1 @ output a1, output := []\<rparr>,
                               n + length (output b1)))
                | None \<Rightarrow>
                    scheduler_spec k (a1\<lparr>input := input a1 @ output b1, output := []\<rparr>)
                      (b1\<lparr>input := input b1 @ output a1, output := []\<rparr>)
                      (n + length (output b1)))))"

subsection \<open>Two longer programs\<close>

text \<open>
  The program \<open>set i 2147483647; add i 1; snd 1; rcv b; add i -1; jgz i -3\<close>, in
  which each machine sends and receives \<open>2 ^ 31\<close> values, and its states: counter,
  registers \<open>b\<close>, \<open>i\<close> and \<open>p\<close>, input queue.
\<close>

definition six_prog :: Program where
  "six_prog =
     [SetInstr (CHR ''i'') (Val 2147483647), AddInstr (CHR ''i'') (Val 1), SndInstr (Val 1),
      RcvInstr (CHR ''b''), AddInstr (CHR ''i'') (Val (- 1)),
      JgzInstr (Reg (CHR ''i'')) (Val (- 3))]"

definition six_regs :: "Value \<Rightarrow> Value \<Rightarrow> Value \<Rightarrow> Value list" where
  "six_regs bv iv pv = (replicate 26 0)[1 := bv, 8 := iv, 15 := pv]"

definition six_state :: "32 word \<Rightarrow> Value \<Rightarrow> Value \<Rightarrow> Value \<Rightarrow> Value list \<Rightarrow> State" where
  "six_state c bv iv pv inp =
     \<lparr>pc = c, regs = six_regs bv iv pv, program = six_prog, input = inp, output = []\<rparr>"

definition six_0 :: Sched where
  "six_0 = \<lparr>s0 = six_state 0 0 0 0 [], s1 = six_state 0 0 0 1 [], p1SendCount = 0\<rparr>"

text \<open>
  The program \<open>snd 1; snd 2; snd p; rcv a; rcv b; rcv c; rcv d\<close> and its states:
  counter, registers \<open>a\<close>, \<open>b\<close>, \<open>c\<close>, \<open>d\<close> and \<open>p\<close>, input queue, output queue.
  \<open>seven_loaded\<close> is a state about to execute \<open>snd p\<close> with several values already in
  both output queues.
\<close>

definition seven_prog :: Program where
  "seven_prog =
     [SndInstr (Val 1), SndInstr (Val 2), SndInstr (Reg (CHR ''p'')), RcvInstr (CHR ''a''),
      RcvInstr (CHR ''b''), RcvInstr (CHR ''c''), RcvInstr (CHR ''d'')]"

definition seven_state ::
  "32 word \<Rightarrow> Value \<Rightarrow> Value \<Rightarrow> Value \<Rightarrow> Value \<Rightarrow> Value \<Rightarrow> Value list \<Rightarrow> Value list \<Rightarrow> State" where
  "seven_state c av bv cv dv pv inp out =
     \<lparr>pc = c, regs = (replicate 26 0)[0 := av, 1 := bv, 2 := cv, 3 := dv, 15 := pv],
      program = seven_prog, input = inp, output = out\<rparr>"

definition seven_0 :: Sched where
  "seven_0 = \<lparr>s0 = seven_state 0 0 0 0 0 0 [] [], s1 = seven_state 0 0 0 0 0 1 [] [],
              p1SendCount = 0\<rparr>"

definition seven_3 :: Sched where
  "seven_3 = \<lparr>s0 = seven_state 3 0 0 0 0 0 [1, 2, 1] [], s1 = seven_state 3 0 0 0 0 1 [1, 2, 0] [],
              p1SendCount = 3\<rparr>"

definition seven_6 :: Sched where
  "seven_6 = \<lparr>s0 = seven_state 6 1 2 1 0 0 [] [], s1 = seven_state 6 1 2 0 0 1 [] [],
              p1SendCount = 3\<rparr>"

definition seven_loaded :: Sched where
  "seven_loaded = \<lparr>s0 = seven_state 2 0 0 0 0 0 [] [5, 6], s1 = seven_state 2 0 0 0 0 1 [] [7, 8, 9],
              p1SendCount = 0\<rparr>"

definition seven_loaded_end :: Sched where
  "seven_loaded_end = \<lparr>s0 = seven_state 7 7 8 9 1 0 [] [], s1 = seven_state 6 5 6 0 0 1 [] [],
              p1SendCount = 4\<rparr>"

definition seven_loaded_mid :: Sched where
  "seven_loaded_mid =
     \<lparr>s0 = seven_state 3 0 0 0 0 0 [] [5, 6, 0], s1 = seven_state 3 0 0 0 0 1 [] [7, 8, 9, 1],
      p1SendCount = 0\<rparr>"

definition seven_loaded_1 :: Sched where
  "seven_loaded_1 =
     \<lparr>s0 = seven_state 3 0 0 0 0 0 [7, 8, 9, 1] [], s1 = seven_state 3 0 0 0 0 1 [5, 6, 0] [],
      p1SendCount = 4\<rparr>"

subsection \<open>Decimal literals\<close>





subsection \<open>A sample state\<close>

definition ex_state :: State where
  "ex_state =
     \<lparr>pc = 2, regs = replicate 26 7, program = [SndInstr (Val 5), RcvInstr (CHR ''b'')],
      input = [3], output = [4]\<rparr>"

section \<open>Properties\<close>

subsection \<open>Auxiliary facts on counters and register indices\<close>

lemma sint32_succ: "sint (c :: 32 word) \<noteq> 2 ^ 31 - 1 \<Longrightarrow> sint (c + 1) = sint c + 1"
proof -
  assume a: "sint c \<noteq> 2 ^ 31 - 1"
  have "sint c < 2 ^ 31" using sint_lt [of c] by simp
  moreover have "- (2 ^ 31) \<le> sint c" using sint_ge [of c] by simp
  ultimately have "signed_take_bit 31 (sint c + 1) = sint c + 1"
    using a by (intro signed_take_bit_int_eq_self) auto
  then show ?thesis by (simp add: sint_word_ariths)
qed

lemma valid_reg_index: "valid_reg r \<Longrightarrow> nat (reg_index r) < 26"
  by (auto simp: valid_reg_def)

lemma reg_index_inj:
  assumes "valid_reg r" "valid_reg q" "nat (reg_index q) = nat (reg_index r)"
  shows "r = q"
proof -
  have "(of_char r :: int) = of_char q"
    using assms unfolding valid_reg_def reg_index_def by linarith
  then show ?thesis by (metis of_char_eq_iff)
qed

subsection \<open>Construction of a machine state\<close>

text \<open>
  C10: a newly constructed Machine State has program counter 0, all 26 registers 0 and
  both queues empty; after the preset of register \<open>p\<close> (0 for the first machine, 1 for
  the second) every other register is still 0 in both machines, and the send count
  starts at 0.
\<close>

theorem State_new_zeroed:
  "pc (State_new p) = 0 \<and> regs (State_new p) = replicate 26 0 \<and>
   input (State_new p) = [] \<and> output (State_new p) = [] \<and> program (State_new p) = p \<and>
   (\<forall>r. valid_reg r \<longrightarrow> getRegister (State_new p) r = Inr 0) \<and>
   (\<exists>st. start p = Inr st \<and>
      (\<forall>r. valid_reg r \<and> r \<noteq> CHR ''p'' \<longrightarrow>
           getRegister (s0 st) r = Inr 0 \<and> getRegister (s1 st) r = Inr 0) \<and>
      getRegister (s0 st) (CHR ''p'') = Inr 0 \<and> getRegister (s1 st) (CHR ''p'') = Inr 1 \<and>
      pc (s0 st) = 0 \<and> pc (s1 st) = 0 \<and>
      input (s0 st) = [] \<and> output (s0 st) = [] \<and> input (s1 st) = [] \<and> output (s1 st) = [] \<and>
      p1SendCount st = 0)"
proof -
  have vp: "valid_reg (CHR ''p'')" by (simp add: valid_reg_def reg_index_def)
  show ?thesis
    using vp by (auto simp: State_new_def start_def setRegister_def getRegister_def
        valid_reg_index nth_list_update dest: reg_index_inj)
qed

theorem State_new_zeroed_witness:
  "valid_reg (CHR ''a'') \<and> getRegister (State_new []) (CHR ''a'') = Inr 0 \<and>
   (\<exists>st. start [] = Inr st \<and> getRegister (s0 st) (CHR ''a'') = Inr 0
      \<and> getRegister (s1 st) (CHR ''a'') = Inr 0)"
proof -
  have v: "valid_reg (CHR ''a'')" by (simp add: valid_reg_def reg_index_def)
  have n: "CHR ''a'' \<noteq> CHR ''p''" by simp
  from State_new_zeroed [of "[]"] v n show ?thesis by blast
qed

subsection \<open>Single step\<close>

text \<open>
  C1: with the program counter outside \<open>[0, program length)\<close>, \<open>executeOne\<close> signals
  Stop and returns the Machine State as it was (counter, registers, both queues);
  with the counter inside, it is the execution of the instruction at that index, signal
  and state.
\<close>

theorem executeOne_contract:
  "(sint (pc s) < 0 \<or> int (length (program s)) \<le> sint (pc s)
      \<longrightarrow> executeOne s = Inr (IntrStop, s)) \<and>
   (0 \<le> sint (pc s) \<and> sint (pc s) < int (length (program s))
      \<longrightarrow> executeOne s = execute (program s ! nat (sint (pc s))) s)"
  by (auto simp: executeOne_def)

theorem executeOne_contract_witness:
  "int (length (program ex_state)) \<le> sint (pc ex_state) \<and>
   executeOne ex_state = Inr (IntrStop, ex_state) \<and>
   0 \<le> sint (pc (ex_state\<lparr>pc := 0\<rparr>)) \<and>
   sint (pc (ex_state\<lparr>pc := 0\<rparr>)) < int (length (program (ex_state\<lparr>pc := 0\<rparr>))) \<and>
   executeOne (ex_state\<lparr>pc := 0\<rparr>) = Inr (IntrSend, ex_state\<lparr>pc := 1, output := [4, 5]\<rparr>)"
  using executeOne_contract [of ex_state] executeOne_contract [of "ex_state\<lparr>pc := 0\<rparr>"]
  by (simp add: ex_state_def pc_incr_def)

text \<open>
  C4: when the current instruction is \<open>rcv x\<close> and the input queue is empty, the step
  signals Receive and returns the state unchanged, so a second step from there does the
  same; when the queue is \<open>v # rest\<close>, the step signals None, register \<open>x\<close> holds
  \<open>v\<close>, the queue is \<open>rest\<close> and the counter is one more. (For the second part the
  register is one of the 26 cells of the register array and the counter is below the
  largest \<^verbatim>\<open>int\<close>: otherwise the store or the increment is undefined in the source.)
\<close>

theorem rcv_blocks_or_pops:
  assumes "0 \<le> sint (pc s)" and "sint (pc s) < int (length (program s))"
    and "program s ! nat (sint (pc s)) = RcvInstr x"
  shows "(input s = [] \<longrightarrow>
            executeOne s = Inr (IntrReceive, s) \<and>
            (\<forall>r s'. executeOne s = Inr (r, s') \<longrightarrow> executeOne s' = Inr (IntrReceive, s))) \<and>
         (\<forall>v rest. input s = v # rest \<and> valid_reg x \<and> length (regs s) = 26 \<and>
              sint (pc s) \<noteq> 2 ^ 31 - 1 \<longrightarrow>
            (\<exists>s'. executeOne s = Inr (IntrNone, s') \<and>
               getRegister s' x = Inr v \<and> input s' = rest \<and>
               sint (pc s') = sint (pc s) + 1 \<and>
               s' = s\<lparr>pc := pc s + 1, regs := (regs s)[nat (reg_index x) := v], input := rest\<rparr>))"
  using assms
  by (auto simp: executeOne_def store_next_def setRegister_def getRegister_def pc_incr_def
      sint32_succ valid_reg_index)

theorem rcv_blocks_or_pops_witness:
  "executeOne (ex_state\<lparr>pc := 1, input := []\<rparr>) = Inr (IntrReceive, ex_state\<lparr>pc := 1, input := []\<rparr>) \<and>
   (\<exists>s'. executeOne (ex_state\<lparr>pc := 1\<rparr>) = Inr (IntrNone, s') \<and>
      getRegister s' (CHR ''b'') = Inr 3 \<and> input s' = [] \<and> sint (pc s') = 2)"
proof -
  let ?e = "ex_state\<lparr>pc := 1, input := []\<rparr>"
  let ?f = "ex_state\<lparr>pc := 1\<rparr>"
  have e1: "0 \<le> sint (pc ?e)" and e2: "sint (pc ?e) < int (length (program ?e))"
    and e3: "program ?e ! nat (sint (pc ?e)) = RcvInstr (CHR ''b'')" and e4: "input ?e = []"
    by (simp_all add: ex_state_def)
  have f1: "0 \<le> sint (pc ?f)" and f2: "sint (pc ?f) < int (length (program ?f))"
    and f3: "program ?f ! nat (sint (pc ?f)) = RcvInstr (CHR ''b'')"
    and f4: "input ?f = [3] \<and> valid_reg (CHR ''b'') \<and> length (regs ?f) = 26 \<and>
             sint (pc ?f) \<noteq> 2 ^ 31 - 1"
    and f5: "sint (pc ?f) + 1 = 2"
    by (simp_all add: ex_state_def valid_reg_def reg_index_def)
  from rcv_blocks_or_pops [OF e1 e2 e3] e4
  have A: "executeOne ?e = Inr (IntrReceive, ?e)" by blast
  from rcv_blocks_or_pops [OF f1 f2 f3] f4
  have "\<exists>s'. executeOne ?f = Inr (IntrNone, s') \<and>
      getRegister s' (CHR ''b'') = Inr 3 \<and> input s' = [] \<and> sint (pc s') = sint (pc ?f) + 1"
    by blast
  with f5 have B: "\<exists>s'. executeOne ?f = Inr (IntrNone, s') \<and>
      getRegister s' (CHR ''b'') = Inr 3 \<and> input s' = [] \<and> sint (pc s') = 2"
    by simp
  from A B show ?thesis by blast
qed

section \<open>Parsing\<close>

subsection \<open>Operand literals\<close>














subsection \<open>Lines with a single operand\<close>

lemma index_from_None: "c \<notin> set xs \<Longrightarrow> index_from c xs i = None"
  by (induction xs arbitrary: i) auto

lemma parseInstr_one_token:
  assumes "length m = 3" and "CHR '' '' \<notin> set tok"
  shows "parseInstr (m @ CHR '' '' # tok) =
     (case parseOperand tok of Inl e \<Rightarrow> Inl e | Inr x \<Rightarrow> mk_instr m x (Val 0))"
proof -
  have "CHR '' '' \<notin> set (drop 1 tok)" using assms(2) by (meson in_set_dropD)
  then have f: "find_from (m @ CHR '' '' # tok) (CHR '' '') 5 = None"
    using assms(1) by (simp add: find_from_def index_from_None)
  have s: "substr (m @ CHR '' '' # tok) 4 None = Inr tok"
    using assms(1) by (simp add: substr_def)
  have y: "parse_y (m @ CHR '' '' # tok) None = Inr (Val 0)"
    by (simp add: parse_y_def)
  show ?thesis
    using assms(1) by (simp add: parseInstr_def f s y Let_def split: sum.splits)
qed

text \<open>
  C6 (as amended): a line made of a two-operand mnemonic (\<open>set\<close>, \<open>add\<close>, \<open>mul\<close>,
  \<open>mod\<close>, \<open>jgz\<close>), one space and a single token without a space does not fail for
  want of the second operand. The second operand is the literal 0: the line parses to
  the instruction with that operand whenever the token parses as a first operand (a
  register for \<open>set\<close>, \<open>add\<close>, \<open>mul\<close>, \<open>mod\<close>), and fails only as the token itself
  fails.
\<close>

theorem missing_operand_is_zero:
  assumes "CHR '' '' \<notin> set tok"
  shows "parseInstr (''set '' @ tok) =
           (case parseOperand tok of Inl e \<Rightarrow> Inl e
            | Inr (Reg r) \<Rightarrow> Inr (SetInstr r (Val 0))
            | Inr (Val v) \<Rightarrow> Inl BadVariantAccess) \<and>
         parseInstr (''add '' @ tok) =
           (case parseOperand tok of Inl e \<Rightarrow> Inl e
            | Inr (Reg r) \<Rightarrow> Inr (AddInstr r (Val 0))
            | Inr (Val v) \<Rightarrow> Inl BadVariantAccess) \<and>
         parseInstr (''mul '' @ tok) =
           (case parseOperand tok of Inl e \<Rightarrow> Inl e
            | Inr (Reg r) \<Rightarrow> Inr (MulInstr r (Val 0))
            | Inr (Val v) \<Rightarrow> Inl BadVariantAccess) \<and>
         parseInstr (''mod '' @ tok) =
           (case parseOperand tok of Inl e \<Rightarrow> Inl e
            | Inr (Reg r) \<Rightarrow> Inr (ModInstr r (Val 0))
            | Inr (Val v) \<Rightarrow> Inl BadVariantAccess) \<and>
         parseInstr (''jgz '' @ tok) =
           (case parseOperand tok of Inl e \<Rightarrow> Inl e
            | Inr x \<Rightarrow> Inr (JgzInstr x (Val 0)))"
proof -
  have "parseInstr (''set '' @ tok) =
      (case parseOperand tok of Inl e \<Rightarrow> Inl e | Inr x \<Rightarrow> mk_instr ''set'' x (Val 0))"
    using parseInstr_one_token [of "''set''" tok] assms by simp
  moreover have "parseInstr (''add '' @ tok) =
      (case parseOperand tok of Inl e \<Rightarrow> Inl e | Inr x \<Rightarrow> mk_instr ''add'' x (Val 0))"
    using parseInstr_one_token [of "''add''" tok] assms by simp
  moreover have "parseInstr (''mul '' @ tok) =
      (case parseOperand tok of Inl e \<Rightarrow> Inl e | Inr x \<Rightarrow> mk_instr ''mul'' x (Val 0))"
    using parseInstr_one_token [of "''mul''" tok] assms by simp
  moreover have "parseInstr (''mod '' @ tok) =
      (case parseOperand tok of Inl e \<Rightarrow> Inl e | Inr x \<Rightarrow> mk_instr ''mod'' x (Val 0))"
    using parseInstr_one_token [of "''mod''" tok] assms by simp
  moreover have "parseInstr (''jgz '' @ tok) =
      (case parseOperand tok of Inl e \<Rightarrow> Inl e | Inr x \<Rightarrow> mk_instr ''jgz'' x (Val 0))"
    using parseInstr_one_token [of "''jgz''" tok] assms by simp
  ultimately show ?thesis
    by (simp add: mk_instr_def reg_instr_def split: sum.splits Operand.splits)
qed

theorem missing_operand_is_zero_witness:
  "CHR '' '' \<notin> set ''b'' \<and> parseInstr ''add b'' = Inr (AddInstr (CHR ''b'') (Val 0)) \<and>
   parseInstr ''jgz b'' = Inr (JgzInstr (Reg (CHR ''b'')) (Val 0))"
proof -
  have h: "CHR '' '' \<notin> set ''b''" by simp
  have p: "parseOperand ''b'' = Inr (Reg (CHR ''b''))"
    by (simp add: parseOperand_def first_char_def)
  from missing_operand_is_zero [OF h] show ?thesis by (simp add: p)
qed

text \<open>C6 as stated fails: \<open>set a\<close> parses, to \<open>set a 0\<close>.\<close>

theorem missing_operand_counterexample:
  "parseInstr ''set a'' = Inr (SetInstr (CHR ''a'') (Val 0))"
  by (simp add: parseInstr_def find_from_def substr_def parseOperand_def first_char_def
      parse_y_def mk_instr_def reg_instr_def)

subsection \<open>Modulo\<close>

text \<open>
  C7 (as amended): \<open>mod x y\<close> applies \<^verbatim>\<open>%\<close> to the two values with no test of the
  divisor. When \<open>y\<close> evaluates to 0 no error is raised: the outcome is the undefined
  behaviour of \<^verbatim>\<open>%\<close>. When it does not (and the pair is not the least \<^verbatim>\<open>int64_t\<close> with
  \<open>- 1\<close>), register \<open>x\<close> receives the remainder truncated towards zero, the counter
  advances by one and the signal is None.
\<close>

theorem mod_zero_unguarded:
  assumes "evalOperand s (Reg x) = Inr a" and "evalOperand s y = Inr b"
  shows "(b = 0 \<longrightarrow> execute (ModInstr x y) s = Inl UndefinedBehaviour) \<and>
         (b \<noteq> 0 \<and> \<not> (sint a = - (2 ^ 63) \<and> sint b = - 1) \<and> sint (pc s) \<noteq> 2 ^ 31 - 1 \<longrightarrow>
            execute (ModInstr x y) s =
              Inr (IntrNone,
                   s\<lparr>regs := (regs s)[nat (reg_index x) := word_of_int (trunc_rem (sint a) (sint b))],
                     pc := pc s + 1\<rparr>))"
proof -
  have v: "valid_reg x" using assms(1) by (simp add: getRegister_def split: if_splits)
  show ?thesis
    using assms v
    by (auto simp: store_next_def binop_def mod_Value_def setRegister_def pc_incr_def)
qed

theorem mod_zero_unguarded_witness:
  "execute (ModInstr (CHR ''b'') (Val 0)) ex_state = Inl UndefinedBehaviour \<and>
   execute (ModInstr (CHR ''b'') (Val (- 4))) ex_state =
     Inr (IntrNone, ex_state\<lparr>regs := (replicate 26 7)[1 := 3], pc := 3\<rparr>)"
proof -
  have a: "evalOperand ex_state (Reg (CHR ''b'')) = Inr 7"
    by (simp add: getRegister_def valid_reg_def reg_index_def ex_state_def)
  have b: "evalOperand ex_state (Val 0) = Inr 0" "evalOperand ex_state (Val (- 4)) = Inr (- 4)"
    by simp_all
  have c: "(- 4 :: Value) \<noteq> 0" "sint (- 4 :: Value) \<noteq> - 1" "sint (pc ex_state) \<noteq> 2 ^ 31 - 1"
     "nat (reg_index (CHR ''b'')) = 1" "regs ex_state = replicate 26 7" "pc ex_state + 1 = 3"
     "(word_of_int (trunc_rem (sint (7 :: Value)) (sint (- 4 :: Value))) :: Value) = 3" 
    by (simp_all add: ex_state_def reg_index_def trunc_rem_def)
  from mod_zero_unguarded [OF a b(1)] mod_zero_unguarded [OF a b(2)] c
  show ?thesis by simp
qed

text \<open>
  C7 as stated fails: on \<open>mod a 0\<close> the step has no error branch to take, and the
  whole run ends in the undefined outcome.
\<close>

theorem mod_zero_counterexample:
  "executeOne (State_new [ModInstr (CHR ''a'') (Val 0)]) = Inl UndefinedBehaviour \<and>
   solve_part2 [''mod a 0''] = Some (Inl UndefinedBehaviour)"
proof -
  have p: "parseProgram [''mod a 0''] = Inr [ModInstr (CHR ''a'') (Val 0)]"
    by (simp add: parseInstr_def find_from_def substr_def parseOperand_def first_char_def
      parse_y_def mk_instr_def reg_instr_def stoi_def isspace_def isdigit_def)
  have e: "executeOne (State_new [ModInstr (CHR ''a'') (Val 0)]) = Inl UndefinedBehaviour"
    by (simp add: executeOne_def State_new_def store_next_def binop_def mod_Value_def
        getRegister_def valid_reg_def reg_index_def)
  have e': "executeOne ((State_new [ModInstr (CHR ''a'') (Val 0)])\<lparr>regs := rs\<rparr>) = Inl UndefinedBehaviour" for rs
    by (simp add: executeOne_def State_new_def store_next_def binop_def mod_Value_def
        getRegister_def valid_reg_def reg_index_def)
  obtain st where st: "start [ModInstr (CHR ''a'') (Val 0)] = Inr st"
     and s0: "s0 st = (State_new [ModInstr (CHR ''a'') (Val 0)])\<lparr>regs := (replicate 26 0)[15 := 0]\<rparr>"
    by (simp add: start_def setRegister_def valid_reg_def reg_index_def State_new_def)
  have "turn st = Inl UndefinedBehaviour"
    by (simp add: turn_def steps_def s0 e')
  then have "run_loop st = Some (Inl UndefinedBehaviour)"
    by (subst run_loop.simps) simp
  then have "solve_part2 [''mod a 0''] = Some (Inl UndefinedBehaviour)"
    unfolding solve_part2_def p by (simp add: st)
  with e show ?thesis by simp
qed

section \<open>The scheduler\<close>

subsection \<open>The drains, and the loop by turns\<close>

lemma drain_p0_eq: "drain_p0 out inp = ([], inp @ out)"
  by (induction out arbitrary: inp) auto

lemma drain_p1_eq:
  "drain_p1 out inp c = Inr (o1, i0, c') \<Longrightarrow>
     o1 = [] \<and> i0 = inp @ out \<and> sint c' = sint c + int (length out)"
proof (induction out arbitrary: inp c)
  case Nil
  then show ?case by simp
next
  case (Cons v out)
  from Cons.prems have ne: "sint c \<noteq> 2 ^ 31 - 1" and
    rec: "drain_p1 out (inp @ [v]) (c + 1) = Inr (o1, i0, c')"
    by (auto split: if_splits)
  from Cons.IH [OF rec] sint32_succ [OF ne] show ?case by simp
qed

lemma run_fuel_imp_run_loop: "run_fuel n st = Some r \<Longrightarrow> run_loop st = Some r"
proof (induction n arbitrary: st)
  case 0
  then show ?case by simp
next
  case (Suc n)
  show ?case
  proof (cases "turn st")
    case (Inl e)
    with Suc.prems show ?thesis by (subst run_loop.simps) simp
  next
    case (Inr t)
    obtain r0 r1 st' where t: "t = (r0, r1, st')" by (cases t) auto
    show ?thesis
    proof (cases "verdict r0 r1")
      case None
      with Suc.prems Inr t have "run_fuel n st' = Some r" by simp
      then have "run_loop st' = Some r" by (rule Suc.IH)
      with Inr t None show ?thesis by (subst run_loop.simps) simp
    next
      case (Some oc)
      with Suc.prems Inr t show ?thesis by (subst run_loop.simps) simp
    qed
  qed
qed

lemma run_loop_imp_run_fuel:
  assumes "run_loop st = Some r"
  shows "\<exists>n. run_fuel n st = Some r"
proof -
  have step: "\<exists>n. run_fuel n st = Some r"
    if IH: "\<And>x y. f x = Some y \<Longrightarrow> \<exists>n. run_fuel n x = Some y"
      and body: "(case turn st of
                    Inl e \<Rightarrow> Some (Inl e)
                  | Inr (r0, r1, st') \<Rightarrow>
                      (case verdict r0 r1 of
                         Some oc \<Rightarrow> Some (Inr (oc, st'))
                       | None \<Rightarrow> f st')) = Some r"
    for f st r
  proof (cases "turn st")
    case (Inl e)
    with body have "run_fuel (Suc 0) st = Some r" by simp
    then show ?thesis by blast
  next
    case (Inr t)
    obtain r0 r1 st' where t: "t = (r0, r1, st')" by (cases t) auto
    show ?thesis
    proof (cases "verdict r0 r1")
      case None
      with body Inr t have "f st' = Some r" by simp
      then obtain n where "run_fuel n st' = Some r" using IH by blast
      with Inr t None have "run_fuel (Suc n) st = Some r" by simp
      then show ?thesis by blast
    next
      case (Some oc)
      with body Inr t have "run_fuel (Suc 0) st = Some r" by simp
      then show ?thesis by blast
    qed
  qed
  show ?thesis
    by (rule run_loop.raw_induct [where P = "\<lambda>st r. \<exists>n. run_fuel n st = Some r", OF step assms])
qed

subsection \<open>The two programs, evaluated\<close>

lemma snd_rcv_parse: "parseProgram [''snd p'', ''rcv a''] = Inr snd_rcv_prog"
  by code_simp

lemma snd_rcv_start: "start snd_rcv_prog = Inr snd_rcv_0"
  by code_simp

lemma snd_rcv_turn1: "turn snd_rcv_0 = Inr (IntrSend, IntrSend, snd_rcv_1)"
  by code_simp

lemma snd_rcv_turn2: "turn snd_rcv_1 = Inr (IntrNone, IntrNone, snd_rcv_2)"
  by code_simp

lemma snd_rcv_turn3: "turn snd_rcv_2 = Inr (IntrStop, IntrStop, snd_rcv_2)"
  by code_simp

lemma snd_rcv_fuel: "run_fuel 3 snd_rcv_0 = Some (Inr (StoppedNormally, snd_rcv_2))"
  by code_simp

lemma snd_rcv_traces:
  "run_trace sent_p0 3 snd_rcv_0 = [0]" "run_trace sent_p1 3 snd_rcv_0 = [1]"
  "run_trace received_p0 3 snd_rcv_0 = [1]" "run_trace received_p1 3 snd_rcv_0 = [0]"
  "run_trace drained_p1 3 snd_rcv_0 = [1]"
  by code_simp+

lemma snd_rcv_rcv_start: "start snd_rcv_rcv_prog = Inr snd_rcv_rcv_0"
  by code_simp

lemma snd_rcv_rcv_fuel: "run_fuel 3 snd_rcv_rcv_0 = Some (Inr (DeadLock, snd_rcv_rcv_2))"
  by code_simp

lemma snd_rcv_rcv_turns:
  "turn_start 2 snd_rcv_rcv_0 = Some snd_rcv_rcv_2"
  "steps snd_rcv_rcv_2 = Inr (IntrReceive, IntrReceive, snd_rcv_rcv_2)"
  "turn snd_rcv_rcv_0 = Inr (IntrSend, IntrSend, snd_rcv_rcv_1)"
  "turn snd_rcv_rcv_1 = Inr (IntrNone, IntrNone, snd_rcv_rcv_2)"
  by code_simp+

lemma snd_rcv_solve: "solve_part2 [''snd p'', ''rcv a''] = Some (Inr (StoppedNormally, 1))"
proof -
  have "run_loop snd_rcv_0 = Some (Inr (StoppedNormally, snd_rcv_2))"
    by (rule run_fuel_imp_run_loop [OF snd_rcv_fuel])
  then show ?thesis
    unfolding solve_part2_def snd_rcv_parse by (simp add: snd_rcv_start snd_rcv_2_def)
qed

subsection \<open>Where the run ends\<close>

lemma run_fuel_last_turn:
  "run_fuel n st = Some (Inr (oc, fin)) \<Longrightarrow>
   \<exists>k stk r0 r1 mid. k < n \<and> turn_start k st = Some stk \<and> steps stk = Inr (r0, r1, mid) \<and>
      drains mid = Inr fin \<and> verdict r0 r1 = Some oc \<and>
      (\<forall>j<k. \<exists>stj q0 q1 stj'. turn_start j st = Some stj \<and> turn stj = Inr (q0, q1, stj') \<and>
          verdict q0 q1 = None)"
proof (induction n arbitrary: st)
  case 0
  then show ?case by simp
next
  case (Suc n)
  from Suc.prems obtain r0 r1 st' where t: "turn st = Inr (r0, r1, st')"
    by (auto split: sum.splits)
  show ?case
  proof (cases "verdict r0 r1")
    case (Some oc')
    with Suc.prems t have e: "oc' = oc" "st' = fin" by simp_all
    from t obtain mid where "steps st = Inr (r0, r1, mid)" "drains mid = Inr st'"
      by (auto simp: turn_def split: sum.splits)
    with Some e have "0 < Suc n \<and> turn_start 0 st = Some st \<and> steps st = Inr (r0, r1, mid) \<and>
      drains mid = Inr fin \<and> verdict r0 r1 = Some oc" by simp
    then show ?thesis by (intro exI [of _ 0]) auto
  next
    case None
    with Suc.prems t have "run_fuel n st' = Some (Inr (oc, fin))" by simp
    from Suc.IH [OF this] obtain k stk q0 q1 mid where
      k: "k < n" "turn_start k st' = Some stk" "steps stk = Inr (q0, q1, mid)"
         "drains mid = Inr fin" "verdict q0 q1 = Some oc"
      and prev: "\<forall>j<k. \<exists>stj q0 q1 stj'. turn_start j st' = Some stj \<and>
          turn stj = Inr (q0, q1, stj') \<and> verdict q0 q1 = None"
      by blast
    have ts: "turn_start (Suc j) st = turn_start j st'" for j using t None by simp
    have "\<exists>stj q0 q1 stj'. turn_start j st = Some stj \<and> turn stj = Inr (q0, q1, stj') \<and>
          verdict q0 q1 = None" if "j < Suc k" for j
    proof (cases j)
      case 0
      then show ?thesis using t None by auto
    next
      case (Suc j')
      with that have "j' < k" by simp
      with prev ts Suc show ?thesis by simp
    qed
    with k ts show ?thesis by (intro exI [of _ "Suc k"]) auto
  qed
qed

lemma verdict_DeadLock: "verdict r0 r1 = Some oc \<Longrightarrow>
   (oc = DeadLock \<longleftrightarrow> r0 = IntrReceive \<and> r1 = IntrReceive) \<and>
   (oc = StoppedNormally \<longleftrightarrow> \<not> (r0 = IntrReceive \<and> r1 = IntrReceive) \<and> (r0 = IntrStop \<or> r1 = IntrStop))"
  by (auto simp: verdict_def split: if_splits)

lemma verdict_None: "verdict r0 r1 = None \<Longrightarrow> \<not> (r0 = IntrReceive \<and> r1 = IntrReceive)"
  by (auto simp: verdict_def split: if_splits)

text \<open>
  C2: when a run ends with the report "dead lock", it does so on its last turn, after the
  two drains of that turn (\<open>fin\<close> is the state they leave), and on that turn the step
  signals of both machines are Receive; a run that ends otherwise did not have both
  signals Receive on its last turn. On no earlier turn of the run were both signals
  Receive, and nothing was reported there.
\<close>

theorem deadlock_only_when_both_receive:
  assumes "run_loop st = Some (Inr (oc, fin))"
  shows "\<exists>k stk r0 r1 mid.
      turn_start k st = Some stk \<and> steps stk = Inr (r0, r1, mid) \<and> drains mid = Inr fin \<and>
      (oc = DeadLock \<longleftrightarrow> r0 = IntrReceive \<and> r1 = IntrReceive) \<and>
      (\<forall>j<k. \<exists>stj q0 q1 stj'. turn_start j st = Some stj \<and> turn stj = Inr (q0, q1, stj') \<and>
           \<not> (q0 = IntrReceive \<and> q1 = IntrReceive))"
proof -
  from run_loop_imp_run_fuel [OF assms] obtain n where "run_fuel n st = Some (Inr (oc, fin))" ..
  from run_fuel_last_turn [OF this] obtain k stk r0 r1 mid where
    k: "turn_start k st = Some stk" "steps stk = Inr (r0, r1, mid)"
       "drains mid = Inr fin" "verdict r0 r1 = Some oc"
    and prev: "\<forall>j<k. \<exists>stj q0 q1 stj'. turn_start j st = Some stj \<and>
          turn stj = Inr (q0, q1, stj') \<and> verdict q0 q1 = None"
    by blast
  have "\<forall>j<k. \<exists>stj q0 q1 stj'. turn_start j st = Some stj \<and>
          turn stj = Inr (q0, q1, stj') \<and> \<not> (q0 = IntrReceive \<and> q1 = IntrReceive)"
  proof (intro allI impI)
    fix j assume "j < k"
    with prev obtain stj q0 q1 stj' where
      "turn_start j st = Some stj" "turn stj = Inr (q0, q1, stj')" "verdict q0 q1 = None"
      by blast
    with verdict_None [of q0 q1] show "\<exists>stj q0 q1 stj'. turn_start j st = Some stj \<and>
          turn stj = Inr (q0, q1, stj') \<and> \<not> (q0 = IntrReceive \<and> q1 = IntrReceive)"
      by blast
  qed
  with k verdict_DeadLock [OF k(4)] show ?thesis by blast
qed

theorem deadlock_only_when_both_receive_witness:
  "run_loop snd_rcv_rcv_0 = Some (Inr (DeadLock, snd_rcv_rcv_2)) \<and>
   (\<exists>k stk r0 r1 mid.
      turn_start k snd_rcv_rcv_0 = Some stk \<and> steps stk = Inr (r0, r1, mid) \<and>
      drains mid = Inr snd_rcv_rcv_2 \<and> r0 = IntrReceive \<and> r1 = IntrReceive \<and>
      (\<forall>j<k. \<exists>stj q0 q1 stj'. turn_start j snd_rcv_rcv_0 = Some stj \<and>
           turn stj = Inr (q0, q1, stj') \<and> \<not> (q0 = IntrReceive \<and> q1 = IntrReceive)))"
proof -
  have h: "run_loop snd_rcv_rcv_0 = Some (Inr (DeadLock, snd_rcv_rcv_2))"
    by (rule run_fuel_imp_run_loop [OF snd_rcv_rcv_fuel])
  from deadlock_only_when_both_receive [OF h] h show ?thesis by blast
qed

subsection \<open>The queues across a step and a turn\<close>

lemma store_next_Inr:
  assumes "store_next x rv s = Inr (r, s')"
  shows "\<exists>v. rv = Inr v \<and> valid_reg x \<and> r = IntrNone \<and>
           s' = s\<lparr>regs := (regs s)[nat (reg_index x) := v], pc := pc s + 1\<rparr>"
  using assms
  by (auto simp: store_next_def setRegister_def pc_incr_def split: sum.splits if_splits)

lemma pc_incr_Inr: "pc_incr s = Inr s' \<Longrightarrow> s' = s\<lparr>pc := pc s + 1\<rparr>"
  by (auto simp: pc_incr_def split: if_splits)

lemma pc_add_Inr: "pc_add b s = Inr s' \<Longrightarrow> \<exists>w. s' = s\<lparr>pc := w\<rparr>"
  by (auto simp: pc_add_def split: if_splits)

lemma execute_queues:
  assumes "execute i s = Inr (r, s')" and "length (regs s) = 26"
  shows "output s' = output s @ (case i of SndInstr x \<Rightarrow> (case evalOperand s x of Inl e \<Rightarrow> [] | Inr v \<Rightarrow> [v]) | _ \<Rightarrow> [])"
    and "input s = (case i of RcvInstr x \<Rightarrow> (if r = IntrNone then (case getRegister s' x of Inl e \<Rightarrow> [] | Inr v \<Rightarrow> [v]) else []) | _ \<Rightarrow> []) @ input s'"
    and "length (regs s') = 26" and "program s' = program s"
proof -
  show "output s' = output s @ (case i of SndInstr x \<Rightarrow> (case evalOperand s x of Inl e \<Rightarrow> [] | Inr v \<Rightarrow> [v]) | _ \<Rightarrow> [])"
    using assms
    by (cases i) (auto split: sum.splits list.splits if_splits
        dest!: store_next_Inr pc_incr_Inr pc_add_Inr)
  show "input s = (case i of RcvInstr x \<Rightarrow> (if r = IntrNone then (case getRegister s' x of Inl e \<Rightarrow> [] | Inr v \<Rightarrow> [v]) else []) | _ \<Rightarrow> []) @ input s'"
    using assms
    by (cases i) (auto simp: getRegister_def valid_reg_index split: sum.splits list.splits if_splits
        dest!: store_next_Inr pc_incr_Inr pc_add_Inr)
  show "length (regs s') = 26"
    using assms
    by (cases i) (auto split: sum.splits list.splits if_splits
        dest!: store_next_Inr pc_incr_Inr pc_add_Inr)
  show "program s' = program s"
    using assms
    by (cases i) (auto split: sum.splits list.splits if_splits
        dest!: store_next_Inr pc_incr_Inr pc_add_Inr)
qed

lemma executeOne_queues:
  assumes "executeOne s = Inr (r, s')" and "length (regs s) = 26"
  shows "output s' = output s @ sent s" and "input s = received s @ input s'"
    and "length (regs s') = 26" and "program s' = program s"
proof -
  show "output s' = output s @ sent s"
  proof (cases "sint (pc s) < 0 \<or> length (program s) \<le> nat (sint (pc s))")
    case True
    then show ?thesis using assms by (auto simp: executeOne_def sent_def)
  next
    case False
    then have "execute (program s ! nat (sint (pc s))) s = Inr (r, s')"
      using assms(1) by (simp add: executeOne_def)
    from execute_queues(1) [OF this assms(2)] False show ?thesis
      by (simp add: sent_def)
  qed
  show "input s = received s @ input s'"
  proof (cases "sint (pc s) < 0 \<or> length (program s) \<le> nat (sint (pc s))")
    case True
    then show ?thesis using assms by (auto simp: executeOne_def received_def)
  next
    case False
    then have "execute (program s ! nat (sint (pc s))) s = Inr (r, s')"
      using assms(1) by (simp add: executeOne_def)
    from execute_queues(2) [OF this assms(2)] False assms(1) show ?thesis
      by (simp add: received_def split: Instr.splits)
  qed
  show "length (regs s') = 26"
    using assms execute_queues(3) [of "program s ! nat (sint (pc s))" s r s']
    by (auto simp: executeOne_def split: if_splits)
  show "program s' = program s"
    using assms execute_queues(4) [of "program s ! nat (sint (pc s))" s r s']
    by (auto simp: executeOne_def split: if_splits)
qed

lemma turn_count:
  assumes "turn st = Inr (r0, r1, st')"
  shows "sint (p1SendCount st') = sint (p1SendCount st) + int (length (drained_p1 st))"
proof -
  from assms obtain mid where m: "steps st = Inr (r0, r1, mid)" and d: "drains mid = Inr st'"
    by (auto simp: turn_def split: sum.splits)
  from m have c: "p1SendCount mid = p1SendCount st"
    by (auto simp: steps_def split: sum.splits)
  from d obtain o1 i0 where
    "drain_p1 (output (s1 mid)) (input (s0 mid)) (p1SendCount mid) = Inr (o1, i0, p1SendCount st')"
    by (auto simp: drains_def drain_p0_eq split: sum.splits)
  from drain_p1_eq [OF this] c m show ?thesis by (simp add: drained_p1_def)
qed

lemma turn_queues:
  assumes "turn st = Inr (r0, r1, st')" and "between_turns st"
  shows "input (s1 st) @ sent_p0 st = received_p1 st @ input (s1 st')"
    and "input (s0 st) @ sent_p1 st = received_p0 st @ input (s0 st')"
    and "between_turns st'"
    and "drained_p1 st = sent_p1 st"
proof -
  from assms(1) obtain mid where m: "steps st = Inr (r0, r1, mid)" and d: "drains mid = Inr st'"
    by (auto simp: turn_def split: sum.splits)
  from m obtain a b where a: "executeOne (s0 st) = Inr (r0, a)" and b: "executeOne (s1 st) = Inr (r1, b)"
    and mid: "s0 mid = a" "s1 mid = b"
    by (auto simp: steps_def split: sum.splits)
  from assms(2) have la: "length (regs (s0 st)) = 26" and lb: "length (regs (s1 st)) = 26"
    and oa: "output (s0 st) = []" and ob: "output (s1 st) = []"
    by (simp_all add: between_turns_def)
  note A = executeOne_queues [OF a la]
  note B = executeOne_queues [OF b lb]
  from d obtain o1 i0 c where
    p1: "drain_p1 (output b) (input a) (p1SendCount mid) = Inr (o1, i0, c)"
    and st': "st' = \<lparr>s0 = a\<lparr>input := i0, output := []\<rparr>,
                    s1 = b\<lparr>input := input b @ output a, output := o1\<rparr>, p1SendCount = c\<rparr>"
    by (auto simp: drains_def drain_p0_eq mid split: sum.splits)
  from drain_p1_eq [OF p1] have o1: "o1 = []" and i0: "i0 = input a @ output b" by simp_all
  show "input (s1 st) @ sent_p0 st = received_p1 st @ input (s1 st')"
    using A(1) B(2) oa by (simp add: st' sent_p0_def received_p1_def)
  show "input (s0 st) @ sent_p1 st = received_p0 st @ input (s0 st')"
    using A(2) B(1) ob i0 by (simp add: st' sent_p1_def received_p0_def)
  show "between_turns st'"
    using A(3) B(3) o1 by (simp add: st' between_turns_def)
  show "drained_p1 st = sent_p1 st"
    using m mid B(1) ob by (simp add: drained_p1_def sent_p1_def)
qed

lemma count_final:
  "run_fuel k st = Some (Inr (oc, fin)) \<Longrightarrow>
   sint (p1SendCount fin) = sint (p1SendCount st) + int (length (run_trace drained_p1 k st))"
proof (induction k arbitrary: st)
  case 0
  then show ?case by simp
next
  case (Suc k)
  from Suc.prems obtain r0 r1 st1 where t: "turn st = Inr (r0, r1, st1)"
    by (auto split: sum.splits)
  note C = turn_count [OF t]
  show ?case
  proof (cases "verdict r0 r1")
    case (Some oc')
    with Suc.prems t have "st1 = fin" by simp
    with C Some show ?thesis by (simp add: t)
  next
    case None
    with Suc.prems t have "run_fuel k st1 = Some (Inr (oc, fin))" by simp
    from Suc.IH [OF this] C None show ?thesis by (simp add: t)
  qed
qed

lemma drained_is_sent:
  "between_turns st \<Longrightarrow> run_trace drained_p1 k st = run_trace sent_p1 k st"
proof (induction k arbitrary: st)
  case 0
  then show ?case by simp
next
  case (Suc k)
  show ?case
  proof (cases "turn st")
    case (Inl e)
    then show ?thesis by simp
  next
    case (Inr t)
    obtain r0 r1 st1 where t: "turn st = Inr (r0, r1, st1)" using Inr by (cases t) auto
    note T = turn_queues [OF t Suc.prems]
    from Suc.IH [OF T(3)] T(4) show ?thesis by (simp add: t split: option.splits)
  qed
qed

lemma between_turns_start: "start p = Inr st \<Longrightarrow> between_turns st \<and> p1SendCount st = 0"
  by (auto simp: start_def setRegister_def State_new_def between_turns_def split: if_splits)

subsection \<open>Delivery\<close>

lemma drain_p1_full:
  "drain_p1 out inp c =
     (if sint c + int (length out) \<le> 2 ^ 31 - 1 then
        Inr ([], inp @ out, word_of_int (sint c + int (length out)))
      else Inl UndefinedBehaviour)"
proof (induction out arbitrary: inp c)
  case Nil
  then show ?case using sint_lt [of c] by simp
next
  case (Cons v out)
  show ?case
  proof (cases "sint c = 2 ^ 31 - 1")
    case True
    then show ?thesis by simp
  next
    case False
    have lt: "sint c < 2 ^ 31" using sint_lt [of c] by simp
    from False have s: "sint (c + 1) = sint c + 1" by (rule sint32_succ)
    show ?thesis using False s lt by (simp add: Cons.IH)
  qed
qed

lemma turn_transit:
  assumes "turn st = Inr (r0, r1, st')"
    and "length (regs (s0 st)) = 26" and "length (regs (s1 st)) = 26"
  shows "input (s1 st) @ output (s0 st) @ sent_p0 st = received_p1 st @ input (s1 st')"
    and "input (s0 st) @ output (s1 st) @ sent_p1 st = received_p0 st @ input (s0 st')"
    and "output (s0 st') = []" and "output (s1 st') = []"
    and "length (regs (s0 st')) = 26" and "length (regs (s1 st')) = 26"
proof -
  from assms(1) obtain mid where m: "steps st = Inr (r0, r1, mid)" and d: "drains mid = Inr st'"
    by (auto simp: turn_def split: sum.splits)
  from m obtain a b where a: "executeOne (s0 st) = Inr (r0, a)" and b: "executeOne (s1 st) = Inr (r1, b)"
    and mid: "s0 mid = a" "s1 mid = b"
    by (auto simp: steps_def split: sum.splits)
  note A = executeOne_queues [OF a assms(2)]
  note B = executeOne_queues [OF b assms(3)]
  from d obtain o1 i0 c where
    p1: "drain_p1 (output b) (input a) (p1SendCount mid) = Inr (o1, i0, c)"
    and st': "st' = \<lparr>s0 = a\<lparr>input := i0, output := []\<rparr>,
                    s1 = b\<lparr>input := input b @ output a, output := o1\<rparr>, p1SendCount = c\<rparr>"
    by (auto simp: drains_def drain_p0_eq mid split: sum.splits)
  from drain_p1_eq [OF p1] have o1: "o1 = []" and i0: "i0 = input a @ output b" by simp_all
  show "input (s1 st) @ output (s0 st) @ sent_p0 st = received_p1 st @ input (s1 st')"
    using A(1) B(2) by (simp add: st' sent_p0_def received_p1_def)
  show "input (s0 st) @ output (s1 st) @ sent_p1 st = received_p0 st @ input (s0 st')"
    using A(2) B(1) i0 by (simp add: st' sent_p1_def received_p0_def)
  show "output (s0 st') = []" "output (s1 st') = []" using o1 by (simp_all add: st')
  show "length (regs (s0 st')) = 26" "length (regs (s1 st')) = 26"
    using A(3) B(3) by (simp_all add: st')
qed

lemma transit_prefix:
  assumes "length (regs (s0 st)) = 26" and "length (regs (s1 st)) = 26"
    and "turn_start k st = Some st'"
  shows "input (s1 st) @ output (s0 st) @ run_trace sent_p0 k st
           = run_trace received_p1 k st @ input (s1 st') @ output (s0 st') \<and>
         input (s0 st) @ output (s1 st) @ run_trace sent_p1 k st
           = run_trace received_p0 k st @ input (s0 st') @ output (s1 st') \<and>
         length (regs (s0 st')) = 26 \<and> length (regs (s1 st')) = 26"
  using assms
proof (induction k arbitrary: st)
  case 0
  then show ?case by simp
next
  case (Suc k)
  from Suc.prems(3) obtain r0 r1 st1 where t: "turn st = Inr (r0, r1, st1)"
    and v: "verdict r0 r1 = None" and ts: "turn_start k st1 = Some st'"
    by (auto split: sum.splits option.splits)
  note T = turn_transit [OF t Suc.prems(1,2)]
  from Suc.IH [OF T(5,6) ts] T(3,4)
  have I1: "input (s1 st1) @ run_trace sent_p0 k st1
              = run_trace received_p1 k st1 @ input (s1 st') @ output (s0 st')"
    and I2: "input (s0 st1) @ run_trace sent_p1 k st1
              = run_trace received_p0 k st1 @ input (s0 st') @ output (s1 st')"
    and I3: "length (regs (s0 st')) = 26" "length (regs (s1 st')) = 26" by simp_all
  have "(input (s1 st) @ output (s0 st) @ sent_p0 st) @ run_trace sent_p0 k st1
      = received_p1 st @ input (s1 st1) @ run_trace sent_p0 k st1"
    using T(1) by simp
  with I1 have G1: "input (s1 st) @ output (s0 st) @ sent_p0 st @ run_trace sent_p0 k st1
      = received_p1 st @ run_trace received_p1 k st1 @ input (s1 st') @ output (s0 st')" by simp
  have "(input (s0 st) @ output (s1 st) @ sent_p1 st) @ run_trace sent_p1 k st1
      = received_p0 st @ input (s0 st1) @ run_trace sent_p1 k st1"
    using T(2) by simp
  with I2 have G2: "input (s0 st) @ output (s1 st) @ sent_p1 st @ run_trace sent_p1 k st1
      = received_p0 st @ run_trace received_p0 k st1 @ input (s0 st') @ output (s1 st')" by simp
  from G1 G2 I3 show ?case by (simp add: t v)
qed

lemma transit_final:
  assumes "length (regs (s0 st)) = 26" and "length (regs (s1 st)) = 26"
    and "run_fuel k st = Some (Inr (oc, fin))"
  shows "input (s1 st) @ output (s0 st) @ run_trace sent_p0 k st
           = run_trace received_p1 k st @ input (s1 fin) \<and>
         input (s0 st) @ output (s1 st) @ run_trace sent_p1 k st
           = run_trace received_p0 k st @ input (s0 fin) \<and>
         output (s0 fin) = [] \<and> output (s1 fin) = []"
  using assms
proof (induction k arbitrary: st)
  case 0
  then show ?case by simp
next
  case (Suc k)
  from Suc.prems(3) obtain r0 r1 st1 where t: "turn st = Inr (r0, r1, st1)"
    by (auto split: sum.splits)
  note T = turn_transit [OF t Suc.prems(1,2)]
  show ?case
  proof (cases "verdict r0 r1")
    case (Some oc')
    with Suc.prems(3) t have "st1 = fin" by simp
    with T Some show ?thesis by (simp add: t)
  next
    case None
    with Suc.prems(3) t have rf: "run_fuel k st1 = Some (Inr (oc, fin))" by simp
    from Suc.IH [OF T(5,6) rf] T(3,4)
    have I1: "input (s1 st1) @ run_trace sent_p0 k st1 = run_trace received_p1 k st1 @ input (s1 fin)"
      and I2: "input (s0 st1) @ run_trace sent_p1 k st1 = run_trace received_p0 k st1 @ input (s0 fin)"
      and I3: "output (s0 fin) = []" "output (s1 fin) = []" by simp_all
    have "(input (s1 st) @ output (s0 st) @ sent_p0 st) @ run_trace sent_p0 k st1
        = received_p1 st @ input (s1 st1) @ run_trace sent_p0 k st1"
      using T(1) by simp
    with I1 have G1: "input (s1 st) @ output (s0 st) @ sent_p0 st @ run_trace sent_p0 k st1
        = received_p1 st @ run_trace received_p1 k st1 @ input (s1 fin)" by simp
    have "(input (s0 st) @ output (s1 st) @ sent_p1 st) @ run_trace sent_p1 k st1
        = received_p0 st @ input (s0 st1) @ run_trace sent_p1 k st1"
      using T(2) by simp
    with I2 have G2: "input (s0 st) @ output (s1 st) @ sent_p1 st @ run_trace sent_p1 k st1
        = received_p0 st @ run_trace received_p0 k st1 @ input (s0 fin)" by simp
    from G1 G2 I3 show ?thesis by (simp add: t None)
  qed
qed

lemma snd_appends:
  assumes "0 \<le> sint (pc s)" and "sint (pc s) < int (length (program s))"
    and "program s ! nat (sint (pc s)) = SndInstr y" and "evalOperand s y = Inr v"
    and "sint (pc s) \<noteq> 2 ^ 31 - 1"
  shows "sent s = [v]"
    and "executeOne s = Inr (IntrSend, s\<lparr>output := output s @ [v], pc := pc s + 1\<rparr>)"
  using assms by (auto simp: sent_def executeOne_def pc_incr_def)

lemma rcv_takes_front:
  assumes "0 \<le> sint (pc s)" and "sint (pc s) < int (length (program s))"
    and "program s ! nat (sint (pc s)) = RcvInstr x" and "input s = v # rest"
    and "valid_reg x" and "length (regs s) = 26" and "sint (pc s) \<noteq> 2 ^ 31 - 1"
  shows "received s = [v]"
    and "executeOne s =
      Inr (IntrNone, s\<lparr>pc := pc s + 1, regs := (regs s)[nat (reg_index x) := v], input := rest\<rparr>)"
  using assms
  by (auto simp: received_def executeOne_def store_next_def setRegister_def getRegister_def
      pc_incr_def valid_reg_index)

lemma drains_moves:
  assumes "drains mid = Inr st2"
  shows "input (s1 st2) = input (s1 mid) @ output (s0 mid)"
    and "input (s0 st2) = input (s0 mid) @ output (s1 mid)"
    and "output (s0 st2) = []" and "output (s1 st2) = []"
    and "sint (p1SendCount st2) = sint (p1SendCount mid) + int (length (output (s1 mid)))"
proof -
  from assms obtain o1 i0 c where
    p1: "drain_p1 (output (s1 mid)) (input (s0 mid)) (p1SendCount mid) = Inr (o1, i0, c)"
    and st2: "st2 = \<lparr>s0 = (s0 mid)\<lparr>input := i0, output := []\<rparr>,
                    s1 = (s1 mid)\<lparr>input := input (s1 mid) @ output (s0 mid), output := o1\<rparr>,
                    p1SendCount = c\<rparr>"
    by (auto simp: drains_def drain_p0_eq split: sum.splits)
  from drain_p1_eq [OF p1] show "input (s1 st2) = input (s1 mid) @ output (s0 mid)"
    and "input (s0 st2) = input (s0 mid) @ output (s1 mid)"
    and "output (s0 st2) = []" and "output (s1 st2) = []"
    and "sint (p1SendCount st2) = sint (p1SendCount mid) + int (length (output (s1 mid)))"
    by (simp_all add: st2)
qed

lemma seven_parse:
  "parseProgram [''snd 1'', ''snd 2'', ''snd p'', ''rcv a'', ''rcv b'', ''rcv c'', ''rcv d'']
     = Inr seven_prog"
  by code_simp

lemma seven_start: "start seven_prog = Inr seven_0"
  by code_simp

lemma seven_prefix: "turn_start 3 seven_0 = Some seven_3"
  by code_simp

lemma seven_fuel: "run_fuel 7 seven_0 = Some (Inr (DeadLock, seven_6))"
  by code_simp

lemma seven_counting:
  "scheduler_spec 7 (s0 seven_0) (s1 seven_0) 0 = Some (Inr (DeadLock, s0 seven_6, s1 seven_6, 3))"
  by code_simp

lemma seven_traces:
  "run_trace sent_p0 3 seven_0 = [1, 2, 0]" "run_trace received_p1 3 seven_0 = []"
  "run_trace sent_p1 3 seven_0 = [1, 2, 1]" "run_trace received_p0 3 seven_0 = []"
  "run_trace sent_p0 7 seven_0 = [1, 2, 0]" "run_trace received_p1 7 seven_0 = [1, 2, 0]"
  "run_trace sent_p1 7 seven_0 = [1, 2, 1]" "run_trace received_p0 7 seven_0 = [1, 2, 1]"
  "run_trace drained_p1 7 seven_0 = [1, 2, 1]"
  by code_simp+

lemma seven_loaded_fuel: "run_fuel 6 seven_loaded = Some (Inr (StoppedNormally, seven_loaded_end))"
  by code_simp

lemma seven_loaded_traces:
  "run_trace sent_p0 6 seven_loaded = [0]" "run_trace received_p1 6 seven_loaded = [5, 6, 0]"
  "run_trace sent_p1 6 seven_loaded = [1]" "run_trace received_p0 6 seven_loaded = [7, 8, 9, 1]"
  by code_simp+

lemma seven_rcv: "received (s1 seven_3) = [1]" "received (s0 seven_3) = [1]"
  by code_simp+

lemma seven_loaded_steps:
  "steps seven_loaded = Inr (IntrSend, IntrSend, seven_loaded_mid)"
  "drains seven_loaded_mid = Inr seven_loaded_1"
  by code_simp+

lemma seven_sel:
  "input (s0 seven_0) = []" "input (s1 seven_0) = []" "output (s0 seven_0) = []" "output (s1 seven_0) = []"
  "input (s0 seven_3) = [1, 2, 1]" "input (s1 seven_3) = [1, 2, 0]"
  "output (s0 seven_3) = []" "output (s1 seven_3) = []"
  "input (s0 seven_6) = []" "input (s1 seven_6) = []"
  "input (s0 seven_loaded) = []" "input (s1 seven_loaded) = []"
  "output (s0 seven_loaded) = [5, 6]" "output (s1 seven_loaded) = [7, 8, 9]"
  "input (s0 seven_loaded_end) = []" "input (s1 seven_loaded_end) = []"
  "input (s0 seven_loaded_mid) = []" "input (s1 seven_loaded_mid) = []"
  "output (s0 seven_loaded_mid) = [5, 6, 0]" "output (s1 seven_loaded_mid) = [7, 8, 9, 1]"
  "input (s0 seven_loaded_1) = [7, 8, 9, 1]" "input (s1 seven_loaded_1) = [5, 6, 0]"
  by (simp_all add: seven_0_def seven_3_def seven_6_def seven_loaded_def seven_loaded_end_def
      seven_loaded_mid_def seven_loaded_1_def seven_state_def)

lemma seven_regs:
  "length (regs (s0 seven_0)) = 26" "length (regs (s1 seven_0)) = 26"
  "length (regs (s0 seven_loaded)) = 26" "length (regs (s1 seven_loaded)) = 26"
  "length (regs (s1 seven_3)) = 26"
  by (simp_all add: seven_0_def seven_3_def seven_loaded_def seven_state_def)

lemma seven_at_snd:
  "0 \<le> sint (pc (s1 seven_loaded))"
  "sint (pc (s1 seven_loaded)) < int (length (program (s1 seven_loaded)))"
  "program (s1 seven_loaded) ! nat (sint (pc (s1 seven_loaded))) = SndInstr (Reg (CHR ''p''))"
  "evalOperand (s1 seven_loaded) (Reg (CHR ''p'')) = Inr 1"
  "sint (pc (s1 seven_loaded)) \<noteq> 2 ^ 31 - 1"
  by (simp_all add: seven_loaded_def seven_state_def seven_prog_def getRegister_def valid_reg_def
      reg_index_def)

lemma seven_at_rcv:
  "0 \<le> sint (pc (s1 seven_3))"
  "sint (pc (s1 seven_3)) < int (length (program (s1 seven_3)))"
  "program (s1 seven_3) ! nat (sint (pc (s1 seven_3))) = RcvInstr (CHR ''a'')"
  "input (s1 seven_3) = 1 # [2, 0]"
  "valid_reg (CHR ''a'')"
  "sint (pc (s1 seven_3)) \<noteq> 2 ^ 31 - 1"
  by (simp_all add: seven_3_def seven_state_def seven_prog_def valid_reg_def reg_index_def)

text \<open>
  C5: the values one machine sends reach its partner unchanged and in the order of
  sending, through the three places they pass. A \<open>snd\<close> puts the value of its operand at
  the back of the output queue. The drains put the whole output queue of each machine,
  in its order, at the back of the input queue of the other, and leave it empty. A
  \<open>rcv\<close> on a queue that is not empty takes the value at the front, whatever the length
  of the queue. And over any number \<open>k\<close> of turns of a run, and at its end: what was in
  transit to a machine at first (its input queue, then the output queue of its partner),
  followed by the values the partner has sent since, in the order of sending, is the
  sequence of values the machine has received, in the order of receiving, followed by
  what is in transit now. With nothing in transit at first, as at the start of the
  program, the values received are an initial part of the values sent.
\<close>

theorem fifo_delivery:
  assumes "length (regs (s0 st)) = 26" and "length (regs (s1 st)) = 26"
  shows "(turn_start k st = Some st' \<longrightarrow>
            input (s1 st) @ output (s0 st) @ run_trace sent_p0 k st
              = run_trace received_p1 k st @ input (s1 st') @ output (s0 st') \<and>
            input (s0 st) @ output (s1 st) @ run_trace sent_p1 k st
              = run_trace received_p0 k st @ input (s0 st') @ output (s1 st')) \<and>
         (run_fuel k st = Some (Inr (oc, fin)) \<longrightarrow>
            input (s1 st) @ output (s0 st) @ run_trace sent_p0 k st
              = run_trace received_p1 k st @ input (s1 fin) \<and>
            input (s0 st) @ output (s1 st) @ run_trace sent_p1 k st
              = run_trace received_p0 k st @ input (s0 fin) \<and>
            output (s0 fin) = [] \<and> output (s1 fin) = []) \<and>
         (0 \<le> sint (pc s) \<and> sint (pc s) < int (length (program s)) \<and>
          program s ! nat (sint (pc s)) = SndInstr y \<and> evalOperand s y = Inr v \<and>
          sint (pc s) \<noteq> 2 ^ 31 - 1 \<longrightarrow>
            sent s = [v] \<and>
            executeOne s = Inr (IntrSend, s\<lparr>output := output s @ [v], pc := pc s + 1\<rparr>)) \<and>
         (drains mid = Inr st2 \<longrightarrow>
            input (s1 st2) = input (s1 mid) @ output (s0 mid) \<and>
            input (s0 st2) = input (s0 mid) @ output (s1 mid) \<and>
            output (s0 st2) = [] \<and> output (s1 st2) = []) \<and>
         (0 \<le> sint (pc t) \<and> sint (pc t) < int (length (program t)) \<and>
          program t ! nat (sint (pc t)) = RcvInstr x \<and> input t = w # rest \<and>
          valid_reg x \<and> length (regs t) = 26 \<and> sint (pc t) \<noteq> 2 ^ 31 - 1 \<longrightarrow>
            received t = [w] \<and>
            executeOne t =
              Inr (IntrNone,
                   t\<lparr>pc := pc t + 1, regs := (regs t)[nat (reg_index x) := w], input := rest\<rparr>))"
proof -
  have 1: "turn_start k st = Some st' \<longrightarrow>
            input (s1 st) @ output (s0 st) @ run_trace sent_p0 k st
              = run_trace received_p1 k st @ input (s1 st') @ output (s0 st') \<and>
            input (s0 st) @ output (s1 st) @ run_trace sent_p1 k st
              = run_trace received_p0 k st @ input (s0 st') @ output (s1 st')"
    using transit_prefix [OF assms, of k st'] by blast
  have 2: "run_fuel k st = Some (Inr (oc, fin)) \<longrightarrow>
            input (s1 st) @ output (s0 st) @ run_trace sent_p0 k st
              = run_trace received_p1 k st @ input (s1 fin) \<and>
            input (s0 st) @ output (s1 st) @ run_trace sent_p1 k st
              = run_trace received_p0 k st @ input (s0 fin) \<and>
            output (s0 fin) = [] \<and> output (s1 fin) = []"
    using transit_final [OF assms, of k oc fin] by blast
  have 3: "0 \<le> sint (pc s) \<and> sint (pc s) < int (length (program s)) \<and>
          program s ! nat (sint (pc s)) = SndInstr y \<and> evalOperand s y = Inr v \<and>
          sint (pc s) \<noteq> 2 ^ 31 - 1 \<longrightarrow>
            sent s = [v] \<and>
            executeOne s = Inr (IntrSend, s\<lparr>output := output s @ [v], pc := pc s + 1\<rparr>)"
    using snd_appends [of s y v] by blast
  have 4: "drains mid = Inr st2 \<longrightarrow>
            input (s1 st2) = input (s1 mid) @ output (s0 mid) \<and>
            input (s0 st2) = input (s0 mid) @ output (s1 mid) \<and>
            output (s0 st2) = [] \<and> output (s1 st2) = []"
    using drains_moves [of mid st2] by blast
  have 5: "0 \<le> sint (pc t) \<and> sint (pc t) < int (length (program t)) \<and>
          program t ! nat (sint (pc t)) = RcvInstr x \<and> input t = w # rest \<and>
          valid_reg x \<and> length (regs t) = 26 \<and> sint (pc t) \<noteq> 2 ^ 31 - 1 \<longrightarrow>
            received t = [w] \<and>
            executeOne t =
              Inr (IntrNone,
                   t\<lparr>pc := pc t + 1, regs := (regs t)[nat (reg_index x) := w], input := rest\<rparr>)"
    using rcv_takes_front [of t x w rest] by blast
  from 1 2 3 4 5 show ?thesis by blast
qed

theorem fifo_delivery_witness:
  "run_trace sent_p0 3 seven_0 = [1, 2, 0] \<and> run_trace received_p1 3 seven_0 = [] \<and>
   input (s1 seven_3) = [1, 2, 0] \<and>
   [] @ [] @ run_trace sent_p0 3 seven_0 = run_trace received_p1 3 seven_0 @ [1, 2, 0] @ [] \<and>
   [] @ [] @ run_trace sent_p1 3 seven_0 = run_trace received_p0 3 seven_0 @ [1, 2, 1] @ [] \<and>
   run_fuel 7 seven_0 = Some (Inr (DeadLock, seven_6)) \<and>
   run_trace sent_p0 7 seven_0 = [1, 2, 0] \<and> run_trace received_p1 7 seven_0 = [1, 2, 0] \<and>
   [] @ [] @ run_trace sent_p0 7 seven_0 = run_trace received_p1 7 seven_0 @ [] \<and>
   [] @ [] @ run_trace sent_p1 7 seven_0 = run_trace received_p0 7 seven_0 @ [] \<and>
   run_fuel 6 seven_loaded = Some (Inr (StoppedNormally, seven_loaded_end)) \<and>
   run_trace received_p1 6 seven_loaded = [5, 6, 0] \<and>
   run_trace received_p0 6 seven_loaded = [7, 8, 9, 1] \<and>
   [] @ [5, 6] @ run_trace sent_p0 6 seven_loaded = run_trace received_p1 6 seven_loaded @ [] \<and>
   [] @ [7, 8, 9] @ run_trace sent_p1 6 seven_loaded = run_trace received_p0 6 seven_loaded @ [] \<and>
   sent (s1 seven_loaded) = [1] \<and>
   input (s1 seven_loaded_1) = [] @ [5, 6, 0] \<and> input (s0 seven_loaded_1) = [] @ [7, 8, 9, 1] \<and>
   received (s1 seven_3) = [1]"
proof -
  note T0 = fifo_delivery [OF seven_regs(1,2)]
  note TL = fifo_delivery [OF seven_regs(3,4)]
  have a: "input (s1 seven_0) @ output (s0 seven_0) @ run_trace sent_p0 3 seven_0
             = run_trace received_p1 3 seven_0 @ input (s1 seven_3) @ output (s0 seven_3)"
    "input (s0 seven_0) @ output (s1 seven_0) @ run_trace sent_p1 3 seven_0
             = run_trace received_p0 3 seven_0 @ input (s0 seven_3) @ output (s1 seven_3)"
    using T0 [where k = 3 and st' = seven_3] seven_prefix by blast+
  have b: "input (s1 seven_0) @ output (s0 seven_0) @ run_trace sent_p0 7 seven_0
             = run_trace received_p1 7 seven_0 @ input (s1 seven_6)"
    "input (s0 seven_0) @ output (s1 seven_0) @ run_trace sent_p1 7 seven_0
             = run_trace received_p0 7 seven_0 @ input (s0 seven_6)"
    using T0 [where k = 7 and oc = DeadLock and fin = seven_6] seven_fuel by blast+
  have c: "input (s1 seven_loaded) @ output (s0 seven_loaded) @ run_trace sent_p0 6 seven_loaded
             = run_trace received_p1 6 seven_loaded @ input (s1 seven_loaded_end)"
    "input (s0 seven_loaded) @ output (s1 seven_loaded) @ run_trace sent_p1 6 seven_loaded
             = run_trace received_p0 6 seven_loaded @ input (s0 seven_loaded_end)"
    using TL [where k = 6 and oc = StoppedNormally and fin = seven_loaded_end] seven_loaded_fuel
    by blast+
  have d: "sent (s1 seven_loaded) = [1]"
    using TL [where s = "s1 seven_loaded" and y = "Reg (CHR ''p'')" and v = 1] seven_at_snd
    by blast
  have e: "input (s1 seven_loaded_1) = input (s1 seven_loaded_mid) @ output (s0 seven_loaded_mid)"
    "input (s0 seven_loaded_1) = input (s0 seven_loaded_mid) @ output (s1 seven_loaded_mid)"
    using TL [where mid = seven_loaded_mid and ?st2.0 = seven_loaded_1] seven_loaded_steps(2)
    by blast+
  have f: "received (s1 seven_3) = [1]"
    using T0 [where t = "s1 seven_3" and x = "CHR ''a''" and w = 1 and rest = "[2, 0]"]
      seven_at_rcv seven_regs(5) by blast
  from a b c d e f show ?thesis
    unfolding seven_sel using seven_fuel seven_loaded_fuel seven_traces seven_loaded_traces
    by simp
qed

subsection \<open>Counting\<close>

lemma turn_unfold:
  "turn st =
     (case executeOne (s0 st) of
        Inl e \<Rightarrow> Inl e
      | Inr (r0, a1) \<Rightarrow>
          (case executeOne (s1 st) of
             Inl e \<Rightarrow> Inl e
           | Inr (r1, b1) \<Rightarrow>
               if sint (p1SendCount st) + int (length (output b1)) \<le> 2 ^ 31 - 1 then
                 Inr (r0, r1,
                      \<lparr>s0 = a1\<lparr>input := input a1 @ output b1, output := []\<rparr>,
                       s1 = b1\<lparr>input := input b1 @ output a1, output := []\<rparr>,
                       p1SendCount = word_of_int (sint (p1SendCount st) + int (length (output b1)))\<rparr>)
               else Inl UndefinedBehaviour))"
  by (simp add: turn_def steps_def drains_def drain_p0_eq drain_p1_full split: sum.splits prod.splits)

lemma sint32_of_int: "- (2 ^ 31) \<le> v \<Longrightarrow> v \<le> 2 ^ 31 - 1 \<Longrightarrow> sint (word_of_int v :: 32 word) = v"
proof -
  assume a: "- (2 ^ 31) \<le> v" "v \<le> 2 ^ 31 - 1"
  have "signed_take_bit 31 v = v"
    using a by (intro signed_take_bit_int_eq_self) auto
  then show ?thesis by (simp add: sint_sbintrunc')
qed

lemma scheduler_spec_mono:
  "scheduler_spec k a b n0 = Some (Inr (oc, a', b', n)) \<Longrightarrow> n0 \<le> n"
proof (induction k arbitrary: a b n0)
  case 0
  then show ?case by simp
next
  case (Suc k)
  from Suc.prems obtain r0 a1 r1 b1 where
    ea: "executeOne a = Inr (r0, a1)" and eb: "executeOne b = Inr (r1, b1)"
    by (auto split: sum.splits)
  show ?case
  proof (cases "verdict r0 r1")
    case None
    with Suc.prems ea eb have
      "scheduler_spec k (a1\<lparr>input := input a1 @ output b1, output := []\<rparr>)
         (b1\<lparr>input := input b1 @ output a1, output := []\<rparr>) (n0 + length (output b1))
       = Some (Inr (oc, a', b', n))" by simp
    from Suc.IH [OF this] show ?thesis by simp
  next
    case (Some oc')
    with Suc.prems ea eb show ?thesis by auto
  qed
qed

lemma scheduler_spec_refines:
  assumes "scheduler_spec k (s0 st) (s1 st) n0 = Some (Inr (oc, a, b, n))"
    and "sint (p1SendCount st) = int n0"
  shows "(n \<le> 2147483647 \<longrightarrow>
           (\<exists>fin. run_fuel k st = Some (Inr (oc, fin)) \<and> s0 fin = a \<and> s1 fin = b \<and>
              sint (p1SendCount fin) = int n)) \<and>
         (2147483647 < n \<longrightarrow> run_fuel k st = Some (Inl UndefinedBehaviour))"
  using assms
proof (induction k arbitrary: st n0)
  case 0
  then show ?case by simp
next
  case (Suc k)
  from Suc.prems(1) obtain r0 a1 r1 b1 where
    ea: "executeOne (s0 st) = Inr (r0, a1)" and eb: "executeOne (s1 st) = Inr (r1, b1)"
    by (auto split: sum.splits)
  let ?n1 = "n0 + length (output b1)"
  let ?a2 = "a1\<lparr>input := input a1 @ output b1, output := []\<rparr>"
  let ?b2 = "b1\<lparr>input := input b1 @ output a1, output := []\<rparr>"
  let ?st' = "\<lparr>s0 = ?a2, s1 = ?b2, p1SendCount = word_of_int (int ?n1)\<rparr>"
  have le: "?n1 \<le> n"
  proof (cases "verdict r0 r1")
    case None
    with Suc.prems(1) ea eb have "scheduler_spec k ?a2 ?b2 ?n1 = Some (Inr (oc, a, b, n))" by simp
    then show ?thesis by (rule scheduler_spec_mono)
  next
    case (Some oc')
    with Suc.prems(1) ea eb show ?thesis by auto
  qed
  show ?case
  proof (cases "int ?n1 \<le> 2147483647")
    case False
    then have t: "turn st = Inl UndefinedBehaviour"
      using ea eb Suc.prems(2) by (simp add: turn_unfold)
    from False le have "2147483647 < n" by simp
    with t show ?thesis by simp
  next
    case True
    then have t: "turn st = Inr (r0, r1, ?st')"
      using ea eb Suc.prems(2) by (simp add: turn_unfold)
    have c: "sint (p1SendCount ?st') = int ?n1"
    proof -
      have "sint (word_of_int (int ?n1) :: 32 word) = int ?n1"
        using True by (intro sint32_of_int) simp_all
      then show ?thesis by (simp only: Sched.select_convs)
    qed
    show ?thesis
    proof (cases "verdict r0 r1")
      case (Some oc')
      with Suc.prems(1) ea eb have e: "oc' = oc" "a = ?a2" "b = ?b2" "n = ?n1" by auto
      have "run_fuel (Suc k) st = Some (Inr (oc, ?st'))" using t Some e by simp
      with c e True show ?thesis by auto
    next
      case None
      with Suc.prems(1) ea eb have
        rc: "scheduler_spec k (s0 ?st') (s1 ?st') ?n1 = Some (Inr (oc, a, b, n))" by simp
      have "run_fuel (Suc k) st = run_fuel k ?st'" using t None by simp
      with Suc.IH [OF rc c] show ?thesis by simp
    qed
  qed
qed

lemma six_regs_upd:
  "(six_regs bv iv pv)[8 := w] = six_regs bv w pv"
  "(six_regs bv iv pv)[Suc 0 := w] = six_regs w iv pv"
  "six_regs bv iv pv ! 8 = iv"
proof -
  have a: "xs[15 := pv, 8 := w] = xs[8 := w, 15 := pv]" for xs :: "Value list"
    by (rule list_update_swap) simp
  have b: "xs[15 := pv, 1 := w] = xs[1 := w, 15 := pv]" for xs :: "Value list"
    by (rule list_update_swap) simp
  have c: "xs[8 := iv, 1 := w] = xs[1 := w, 8 := iv]" for xs :: "Value list"
    by (rule list_update_swap) simp
  show "(six_regs bv iv pv)[8 := w] = six_regs bv w pv"
    unfolding six_regs_def by (simp only: a list_update_overwrite)
  have "(six_regs bv iv pv)[1 := w] = six_regs w iv pv"
    unfolding six_regs_def by (simp only: b c list_update_overwrite)
  then show "(six_regs bv iv pv)[Suc 0 := w] = six_regs w iv pv" by simp
  show "six_regs bv iv pv ! 8 = iv"
    by (simp add: six_regs_def)
qed

lemma six_parse:
  "parseProgram [''set i 2147483647'', ''add i 1'', ''snd 1'', ''rcv b'', ''add i -1'', ''jgz i -3'']
     = Inr six_prog"
  by code_simp

lemma six_start:
  "start six_prog = Inr \<lparr>s0 = six_state 0 0 0 0 [], s1 = six_state 0 0 0 1 [], p1SendCount = 0\<rparr>"
  by code_simp

lemma reg_i: "valid_reg (CHR ''i'')" "nat (reg_index (CHR ''i'')) = 8"
  and reg_b: "valid_reg (CHR ''b'')" "nat (reg_index (CHR ''b'')) = 1"
  by (simp_all add: valid_reg_def reg_index_def)

lemma sint64_pred: "sint (iv :: 64 word) \<noteq> - (2 ^ 63) \<Longrightarrow> sint (iv - 1) = sint iv - 1"
proof -
  assume a: "sint iv \<noteq> - (2 ^ 63)"
  have "sint iv < 2 ^ 63" using sint_lt [of iv] by simp
  moreover have "- (2 ^ 63) \<le> sint iv" using sint_ge [of iv] by simp
  ultimately have "signed_take_bit 63 (sint iv - 1) = sint iv - 1"
    using a by (intro signed_take_bit_int_eq_self) auto
  then show ?thesis by (simp add: sint_word_ariths)
qed

lemma six_snd:
  "executeOne (six_state 2 bv iv pv inp) = Inr (IntrSend, (six_state 3 bv iv pv inp)\<lparr>output := [1]\<rparr>)"
  by (simp add: executeOne_def six_state_def six_prog_def pc_incr_def)

lemma six_rcv:
  "executeOne (six_state 3 bv iv pv (v # inp)) = Inr (IntrNone, six_state 4 v iv pv inp)"
  by (simp add: executeOne_def six_state_def six_prog_def pc_incr_def store_next_def
      setRegister_def reg_b six_regs_upd)

lemma six_add:
  "sint iv \<noteq> - (2 ^ 63) \<Longrightarrow>
   executeOne (six_state 4 bv iv pv inp) = Inr (IntrNone, six_state 5 bv (iv - 1) pv inp)"
  using sint64_pred [of iv] sint_lt [of iv] sint_ge [of iv]
  by (simp add: executeOne_def six_state_def six_prog_def pc_incr_def store_next_def
      setRegister_def getRegister_def binop_def add_Value_def in_int64_def reg_i six_regs_upd)

lemma six_jgz_taken:
  "0 < sint iv \<Longrightarrow>
   executeOne (six_state 5 bv iv pv inp) = Inr (IntrNone, six_state 2 bv iv pv inp)"
  by (simp add: executeOne_def six_state_def six_prog_def pc_add_def
      getRegister_def in_int64_def reg_i six_regs_upd)

lemma six_jgz_not:
  "\<not> 0 < sint iv \<Longrightarrow>
   executeOne (six_state 5 bv iv pv inp) = Inr (IntrNone, six_state 6 bv iv pv inp)"
  by (simp add: executeOne_def six_state_def six_prog_def pc_incr_def
      getRegister_def reg_i six_regs_upd)

lemma six_stop:
  "executeOne (six_state 6 bv iv pv inp) = Inr (IntrStop, six_state 6 bv iv pv inp)"
  by (simp add: executeOne_def six_state_def six_prog_def)

lemma six_set:
  "executeOne (six_state 0 bv iv pv inp) = Inr (IntrNone, six_state 1 bv 2147483647 pv inp)"
  by (simp add: executeOne_def six_state_def six_prog_def pc_incr_def store_next_def
      setRegister_def reg_i six_regs_upd)

lemma six_add1:
  "executeOne (six_state 1 bv 2147483647 pv inp) = Inr (IntrNone, six_state 2 bv 2147483648 pv inp)"
  by (simp add: executeOne_def six_state_def six_prog_def pc_incr_def store_next_def
      setRegister_def getRegister_def binop_def add_Value_def in_int64_def reg_i six_regs_upd)

lemma six_sel:
  "input (six_state c bv iv pv inp) = inp" "output (six_state c bv iv pv inp) = []"
  "input ((six_state c bv iv pv inp)\<lparr>output := out\<rparr>) = inp"
  "output ((six_state c bv iv pv inp)\<lparr>output := out\<rparr>) = out"
  "(six_state c bv iv pv inp)\<lparr>output := out\<rparr>\<lparr>input := inp', output := []\<rparr> = six_state c bv iv pv inp'"
  "(six_state c bv iv pv inp)\<lparr>input := inp', output := []\<rparr> = six_state c bv iv pv inp'"
  by (simp_all add: six_state_def)

lemma scheduler_spec_step:
  assumes "executeOne a = Inr (r0, a1)" and "executeOne b = Inr (r1, b1)"
    and "verdict r0 r1 = None"
  shows "scheduler_spec (Suc k) a b n =
         scheduler_spec k (a1\<lparr>input := input a1 @ output b1, output := []\<rparr>)
           (b1\<lparr>input := input b1 @ output a1, output := []\<rparr>) (n + length (output b1))"
  using assms by simp

lemma verdict_go: "verdict IntrSend IntrSend = None" "verdict IntrNone IntrNone = None"
  by (simp_all add: verdict_def)

lemma six_iter:
  assumes "0 < sint iv"
  shows "scheduler_spec (Suc (Suc (Suc (Suc k)))) (six_state 2 bv iv 0 []) (six_state 2 bv iv 1 []) n =
         (if 1 < sint iv then
            scheduler_spec k (six_state 2 1 (iv - 1) 0 []) (six_state 2 1 (iv - 1) 1 []) (Suc n)
          else scheduler_spec k (six_state 6 1 (iv - 1) 0 []) (six_state 6 1 (iv - 1) 1 []) (Suc n))"
proof -
  have ne: "sint iv \<noteq> - (2 ^ 63)" using assms by simp
  have p: "sint (iv - 1) = sint iv - 1" using ne by (rule sint64_pred)
  have j: "(0 < sint (iv - 1)) = (1 < sint iv)" using p by simp
  have t1: "scheduler_spec (Suc (Suc (Suc (Suc k)))) (six_state 2 bv iv 0 []) (six_state 2 bv iv 1 []) n
      = scheduler_spec (Suc (Suc (Suc k))) (six_state 3 bv iv 0 [1]) (six_state 3 bv iv 1 [1]) (Suc n)"
    by (simp add: scheduler_spec_step [OF six_snd six_snd verdict_go(1)] six_sel
        del: scheduler_spec.simps)
  have t2: "scheduler_spec (Suc (Suc (Suc k))) (six_state 3 bv iv 0 [1]) (six_state 3 bv iv 1 [1]) (Suc n)
      = scheduler_spec (Suc (Suc k)) (six_state 4 1 iv 0 []) (six_state 4 1 iv 1 []) (Suc n)"
    by (simp add: scheduler_spec_step [OF six_rcv six_rcv verdict_go(2)] six_sel
        del: scheduler_spec.simps)
  have t3: "scheduler_spec (Suc (Suc k)) (six_state 4 1 iv 0 []) (six_state 4 1 iv 1 []) (Suc n)
      = scheduler_spec (Suc k) (six_state 5 1 (iv - 1) 0 []) (six_state 5 1 (iv - 1) 1 []) (Suc n)"
    by (simp add: scheduler_spec_step [OF six_add [OF ne] six_add [OF ne] verdict_go(2)] six_sel
        del: scheduler_spec.simps)
  show ?thesis
  proof (cases "1 < sint iv")
    case True
    then have "0 < sint (iv - 1)" using j by simp
    then have "scheduler_spec (Suc k) (six_state 5 1 (iv - 1) 0 []) (six_state 5 1 (iv - 1) 1 []) (Suc n)
      = scheduler_spec k (six_state 2 1 (iv - 1) 0 []) (six_state 2 1 (iv - 1) 1 []) (Suc n)"
      by (simp add: scheduler_spec_step [OF six_jgz_taken six_jgz_taken verdict_go(2)] six_sel
          del: scheduler_spec.simps)
    with t1 t2 t3 True show ?thesis by (simp del: scheduler_spec.simps)
  next
    case False
    then have "\<not> 0 < sint (iv - 1)" using j by simp
    then have "scheduler_spec (Suc k) (six_state 5 1 (iv - 1) 0 []) (six_state 5 1 (iv - 1) 1 []) (Suc n)
      = scheduler_spec k (six_state 6 1 (iv - 1) 0 []) (six_state 6 1 (iv - 1) 1 []) (Suc n)"
      by (simp add: scheduler_spec_step [OF six_jgz_not six_jgz_not verdict_go(2)] six_sel
          del: scheduler_spec.simps)
    with t1 t2 t3 False show ?thesis by (simp del: scheduler_spec.simps)
  qed
qed

lemma six_loop:
  "sint iv = int (Suc m) \<Longrightarrow>
   scheduler_spec (4 * Suc m + k) (six_state 2 bv iv 0 []) (six_state 2 bv iv 1 []) n =
   scheduler_spec k (six_state 6 1 0 0 []) (six_state 6 1 0 1 []) (n + Suc m)"
proof (induction m arbitrary: iv bv n)
  case 0
  then have one: "sint iv = 1" by simp
  then have "word_of_int (sint iv) = (word_of_int 1 :: Value)" by simp
  then have iv: "iv = 1" by simp
  have f: "4 * Suc 0 + k = Suc (Suc (Suc (Suc k)))" by simp
  show ?case unfolding f using six_iter [of iv k bv n] one iv by (simp del: scheduler_spec.simps)
next
  case (Suc m)
  then have gt: "1 < sint iv" and pos: "0 < sint iv" by simp_all
  have ne: "sint iv \<noteq> - (2 ^ 63)" using pos by simp
  have p: "sint (iv - 1) = int (Suc m)" using sint64_pred [OF ne] Suc.prems by simp
  have f: "4 * Suc (Suc m) + k = Suc (Suc (Suc (Suc (4 * Suc m + k))))" by simp
  have "scheduler_spec (4 * Suc (Suc m) + k) (six_state 2 bv iv 0 []) (six_state 2 bv iv 1 []) n
      = scheduler_spec (4 * Suc m + k) (six_state 2 1 (iv - 1) 0 []) (six_state 2 1 (iv - 1) 1 []) (Suc n)"
    unfolding f using six_iter [OF pos, of "4 * Suc m + k" bv n] gt by (simp del: scheduler_spec.simps)
  also have "\<dots> = scheduler_spec k (six_state 6 1 0 0 []) (six_state 6 1 0 1 []) (Suc n + Suc m)"
    by (rule Suc.IH [OF p])
  finally show ?case by simp
qed

lemma six_prologue:
  "scheduler_spec (Suc (Suc k)) (six_state 0 0 0 0 []) (six_state 0 0 0 1 []) 0 =
   scheduler_spec k (six_state 2 0 2147483648 0 []) (six_state 2 0 2147483648 1 []) 0"
proof -
  have "scheduler_spec (Suc (Suc k)) (six_state 0 0 0 0 []) (six_state 0 0 0 1 []) 0 =
      scheduler_spec (Suc k) (six_state 1 0 2147483647 0 []) (six_state 1 0 2147483647 1 []) 0"
    by (simp add: scheduler_spec_step [OF six_set six_set verdict_go(2)] six_sel
        del: scheduler_spec.simps)
  also have "\<dots> = scheduler_spec k (six_state 2 0 2147483648 0 []) (six_state 2 0 2147483648 1 []) 0"
    by (simp add: scheduler_spec_step [OF six_add1 six_add1 verdict_go(2)] six_sel
        del: scheduler_spec.simps)
  finally show ?thesis .
qed

lemma six_epilogue:
  "scheduler_spec (Suc 0) (six_state 6 1 0 0 []) (six_state 6 1 0 1 []) n =
   Some (Inr (StoppedNormally, six_state 6 1 0 0 [], six_state 6 1 0 1 [], n))"
  by (simp add: six_stop six_sel verdict_def)

lemma six_counting:
  "scheduler_spec 8589934595 (s0 six_0) (s1 six_0) 0 =
     Some (Inr (StoppedNormally, six_state 6 1 0 0 [], six_state 6 1 0 1 [], 2147483648))"
proof -
  have f: "(8589934595 :: nat) = Suc (Suc (4 * Suc 2147483647 + Suc 0))" by simp
  have g: "0 + Suc 2147483647 = (2147483648 :: nat)" by simp
  have s: "sint (2147483648 :: Value) = int (Suc 2147483647)" by simp
  have "scheduler_spec (Suc (Suc (4 * Suc 2147483647 + Suc 0))) (six_state 0 0 0 0 []) (six_state 0 0 0 1 []) 0
      = scheduler_spec (4 * Suc 2147483647 + Suc 0) (six_state 2 0 2147483648 0 []) (six_state 2 0 2147483648 1 []) 0"
    by (rule six_prologue)
  also have "\<dots> = scheduler_spec (Suc 0) (six_state 6 1 0 0 []) (six_state 6 1 0 1 []) (0 + Suc 2147483647)"
    by (rule six_loop [OF s])
  also have "\<dots> = Some (Inr (StoppedNormally, six_state 6 1 0 0 [], six_state 6 1 0 1 [], 0 + Suc 2147483647))"
    by (rule six_epilogue)
  finally have "scheduler_spec (Suc (Suc (4 * Suc 2147483647 + Suc 0))) (six_state 0 0 0 0 []) (six_state 0 0 0 1 []) 0
      = Some (Inr (StoppedNormally, six_state 6 1 0 0 [], six_state 6 1 0 1 [], 2147483648))"
    unfolding g .
  then show ?thesis unfolding f [symmetric] by (simp add: six_0_def del: scheduler_spec.simps)
qed

lemma six_solve:
  "solve_part2 [''set i 2147483647'', ''add i 1'', ''snd 1'', ''rcv b'', ''add i -1'', ''jgz i -3'']
     = Some (Inl UndefinedBehaviour)"
proof -
  have c: "sint (p1SendCount six_0) = int 0" by (simp add: six_0_def)
  from scheduler_spec_refines [OF six_counting c]
  have "run_fuel 8589934595 six_0 = Some (Inl UndefinedBehaviour)" by simp
  then have "run_loop six_0 = Some (Inl UndefinedBehaviour)" by (rule run_fuel_imp_run_loop)
  then show ?thesis
    unfolding solve_part2_def six_parse by (simp add: six_start six_0_def [symmetric])
qed

text \<open>
  C3 (as amended): take a run of the scheduler from the start of the program that ends
  after \<open>k\<close> turns, \<open>n\<close> values having been moved from the output queue of \<open>s1\<close> to the
  input queue of \<open>s0\<close> over all its turns. When \<open>n\<close> is at most \<open>2 ^ 31 - 1\<close>,
  \<^verbatim>\<open>solve_part2\<close> ends with the same message, in the same machine states, and the
  number it prints is \<open>n\<close>; these \<open>n\<close> values are the values \<open>s1\<close> sent, in order, and
  \<open>s0\<close> has received them or still has them in its input queue. When \<open>n\<close> is larger,
  \<^verbatim>\<open>p1SendCount++\<close> overflows the \<^verbatim>\<open>int\<close> and no count is defined.
\<close>

theorem send_count_within_int:
  assumes "parseProgram lines = Inr p" and "start p = Inr st"
    and "scheduler_spec k (s0 st) (s1 st) 0 = Some (Inr (oc, a, b, n))"
  shows "(n \<le> 2147483647 \<longrightarrow>
            (\<exists>c fin. solve_part2 lines = Some (Inr (oc, c)) \<and> sint c = int n \<and>
               run_loop st = Some (Inr (oc, fin)) \<and> p1SendCount fin = c \<and>
               s0 fin = a \<and> s1 fin = b \<and>
               n = length (run_trace drained_p1 k st) \<and>
               run_trace drained_p1 k st = run_trace sent_p1 k st \<and>
               run_trace sent_p1 k st = run_trace received_p0 k st @ input a)) \<and>
         (2147483647 < n \<longrightarrow> solve_part2 lines = Some (Inl UndefinedBehaviour))"
proof -
  from between_turns_start [OF assms(2)] have bt: "between_turns st" and z: "p1SendCount st = 0"
    by simp_all
  have c0: "sint (p1SendCount st) = int 0" using z by simp
  note R = scheduler_spec_refines [OF assms(3) c0]
  have i0: "input (s0 st) = []"
    using assms(2) by (auto simp: start_def setRegister_def State_new_def split: if_splits)
  have small: "\<exists>c fin. solve_part2 lines = Some (Inr (oc, c)) \<and> sint c = int n \<and>
               run_loop st = Some (Inr (oc, fin)) \<and> p1SendCount fin = c \<and>
               s0 fin = a \<and> s1 fin = b \<and>
               n = length (run_trace drained_p1 k st) \<and>
               run_trace drained_p1 k st = run_trace sent_p1 k st \<and>
               run_trace sent_p1 k st = run_trace received_p0 k st @ input a"
    if le: "n \<le> 2147483647"
  proof -
    from R le obtain fin where rf: "run_fuel k st = Some (Inr (oc, fin))"
      and fa: "s0 fin = a" and fb: "s1 fin = b" and cn: "sint (p1SendCount fin) = int n"
      by auto
    have rl: "run_loop st = Some (Inr (oc, fin))" by (rule run_fuel_imp_run_loop [OF rf])
    have sp: "solve_part2 lines = Some (Inr (oc, p1SendCount fin))"
      by (simp add: solve_part2_def assms(1,2) rl)
    have len: "n = length (run_trace drained_p1 k st)"
      using count_final [OF rf] cn z by simp
    have ds: "run_trace drained_p1 k st = run_trace sent_p1 k st"
      by (rule drained_is_sent [OF bt])
    have "length (regs (s0 st)) = 26" "length (regs (s1 st)) = 26" "output (s1 st) = []"
      using bt by (simp_all add: between_turns_def)
    from transit_final [OF this(1,2) rf] this(3) i0 fa
    have rc: "run_trace sent_p1 k st = run_trace received_p0 k st @ input a" by simp
    from sp cn rl fa fb len ds rc show ?thesis by blast
  qed
  have big: "solve_part2 lines = Some (Inl UndefinedBehaviour)" if gt: "2147483647 < n"
  proof -
    from R gt have "run_fuel k st = Some (Inl UndefinedBehaviour)" by simp
    then have "run_loop st = Some (Inl UndefinedBehaviour)" by (rule run_fuel_imp_run_loop)
    then show ?thesis by (simp add: solve_part2_def assms(1,2))
  qed
  from small big show ?thesis by blast
qed

theorem send_count_within_int_witness:
  "parseProgram [''snd 1'', ''snd 2'', ''snd p'', ''rcv a'', ''rcv b'', ''rcv c'', ''rcv d'']
     = Inr seven_prog \<and>
   start seven_prog = Inr seven_0 \<and>
   scheduler_spec 7 (s0 seven_0) (s1 seven_0) 0 = Some (Inr (DeadLock, s0 seven_6, s1 seven_6, 3)) \<and>
   (3 :: nat) \<le> 2147483647 \<and>
   (\<exists>c fin. solve_part2 [''snd 1'', ''snd 2'', ''snd p'', ''rcv a'', ''rcv b'', ''rcv c'', ''rcv d'']
               = Some (Inr (DeadLock, c)) \<and> sint c = int 3 \<and>
      run_loop seven_0 = Some (Inr (DeadLock, fin)) \<and> p1SendCount fin = c \<and>
      s0 fin = s0 seven_6 \<and> s1 fin = s1 seven_6 \<and>
      3 = length (run_trace drained_p1 7 seven_0) \<and>
      run_trace drained_p1 7 seven_0 = run_trace sent_p1 7 seven_0 \<and>
      run_trace sent_p1 7 seven_0 = run_trace received_p0 7 seven_0 @ input (s0 seven_6))"
proof -
  have le: "(3 :: nat) \<le> 2147483647" by simp
  from send_count_within_int [OF seven_parse seven_start seven_counting] le
  show ?thesis using seven_parse seven_start seven_counting by blast
qed

text \<open>
  C3 as stated fails: in the run of the six-line program both machines fall off the end
  after 8589934595 turns, \<open>2 ^ 31\<close> values having been moved from the output queue of
  \<open>s1\<close> to the input queue of \<open>s0\<close>. No \<^verbatim>\<open>int\<close> has that value: the increment of
  \<^verbatim>\<open>p1SendCount\<close> for the last of them overflows.
\<close>

theorem send_count_counterexample:
  "parseProgram [''set i 2147483647'', ''add i 1'', ''snd 1'', ''rcv b'', ''add i -1'', ''jgz i -3'']
     = Inr six_prog \<and>
   start six_prog = Inr six_0 \<and>
   scheduler_spec 8589934595 (s0 six_0) (s1 six_0) 0 =
     Some (Inr (StoppedNormally, six_state 6 1 0 0 [], six_state 6 1 0 1 [], 2147483648)) \<and>
   solve_part2 [''set i 2147483647'', ''add i 1'', ''snd 1'', ''rcv b'', ''add i -1'', ''jgz i -3'']
     = Some (Inl UndefinedBehaviour)"
  using six_parse six_start six_counting six_solve by (simp add: six_0_def)

subsection \<open>The scenario of two lines\<close>

text \<open>
  C9: the lines \<open>snd p\<close>, \<open>rcv a\<close> run as two machines with \<open>p\<close> preset to 0 and 1.
  Turn 1: both send their \<open>p\<close>, and the drains deliver 0 to \<open>s1\<close> and 1 to \<open>s0\<close>.
  Turn 2: both receive. Turn 3: both counters are past the end, both steps signal
  Stop, and the loop is left with "Both programs stopped normally". Each machine has
  sent one value, its own \<open>p\<close>, the partner has received it, and the count printed is 1.
\<close>

theorem snd_rcv_scenario:
  "solve_part2 [''snd p'', ''rcv a''] = Some (Inr (StoppedNormally, 1)) \<and>
   parseProgram [''snd p'', ''rcv a''] = Inr snd_rcv_prog \<and>
   start snd_rcv_prog = Inr snd_rcv_0 \<and>
   turn snd_rcv_0 = Inr (IntrSend, IntrSend, snd_rcv_1) \<and>
   turn snd_rcv_1 = Inr (IntrNone, IntrNone, snd_rcv_2) \<and>
   turn snd_rcv_2 = Inr (IntrStop, IntrStop, snd_rcv_2) \<and>
   run_loop snd_rcv_0 = Some (Inr (StoppedNormally, snd_rcv_2)) \<and>
   run_trace sent_p0 3 snd_rcv_0 = [0] \<and> run_trace received_p1 3 snd_rcv_0 = [0] \<and>
   run_trace sent_p1 3 snd_rcv_0 = [1] \<and> run_trace received_p0 3 snd_rcv_0 = [1] \<and>
   p1SendCount snd_rcv_2 = 1"
proof -
  have "run_loop snd_rcv_0 = Some (Inr (StoppedNormally, snd_rcv_2))"
    by (rule run_fuel_imp_run_loop [OF snd_rcv_fuel])
  moreover have "p1SendCount snd_rcv_2 = 1" by (simp add: snd_rcv_2_def)
  ultimately show ?thesis
    using snd_rcv_solve snd_rcv_parse snd_rcv_start snd_rcv_turn1 snd_rcv_turn2 snd_rcv_turn3
      snd_rcv_traces by simp
qed

end
